theory Spec2Isabelle
  imports Complex_Main
begin

section \<open>Data model (types.ts)\<close>

datatype Direction = UP | DOWN | LEFT | RIGHT | NONE

datatype CellType = WALL | PELLET | EMPTY | POWER_PELLET | GHOST_HOME | GHOST_HOME_DOOR

datatype GameState = READY | PLAYING | PAUSED | GAME_OVER | LEVEL_WON

datatype GhostState = normal | frightened | eaten

datatype GhostMode = chase | scatter

text \<open>Coordinates are JavaScript numbers that only ever hold integers.\<close>

record Position =
  x :: int
  y :: int

record Pacman =
  position :: Position
  direction :: Direction
  nextDirection :: Direction
  isMouthOpen :: bool

text \<open>
  A ghost. The field \<open>id\<close> of the source is \<open>gid\<close> here, and the fields the
  player record also has carry a \<open>g\<close>; \<open>color\<close> is only read by the renderer.
\<close>

record Ghost =
  gid :: int
  gposition :: Position
  gdirection :: Direction
  gstate :: GhostState
  spawn :: Position
  scatterTarget :: Position

type_synonym Board = "CellType list list"

text \<open>
  The module \<open>constants\<close> is imported by App.tsx; its values are parameters here.
\<close>

record Constants =
  BOARD_WIDTH :: int
  BOARD_HEIGHT :: int
  FRIGHTENED_DURATION :: int
  TOTAL_PELLETS :: int
  GAME_SPEED :: rat
  INITIAL_BOARD :: Board

section \<open>Grid model (App.tsx)\<close>

text \<open>\<open>getNextPosition\<close>: one step, then the four tunnel tests in the source's order.\<close>

definition getNextPosition :: "Constants \<Rightarrow> Position \<Rightarrow> Direction \<Rightarrow> Position" where
  "getNextPosition c pos dir =
    (let x0 = (case dir of LEFT \<Rightarrow> x pos - 1 | RIGHT \<Rightarrow> x pos + 1 | _ \<Rightarrow> x pos);
         y0 = (case dir of UP \<Rightarrow> y pos - 1 | DOWN \<Rightarrow> y pos + 1 | _ \<Rightarrow> y pos);
         x1 = (if x0 < 0 then BOARD_WIDTH c - 1 else x0);
         x2 = (if x1 \<ge> BOARD_WIDTH c then 0 else x1);
         y1 = (if y0 < 0 then BOARD_HEIGHT c - 1 else y0);
         y2 = (if y1 \<ge> BOARD_HEIGHT c then 0 else y1)
     in \<lparr>x = x2, y = y2\<rparr>)"

text \<open>The table \<open>oppositeDirection\<close> of \<open>moveGhosts\<close>.\<close>

fun oppositeDirection :: "Direction \<Rightarrow> Direction" where
  "oppositeDirection UP = DOWN"
| "oppositeDirection DOWN = UP"
| "oppositeDirection LEFT = RIGHT"
| "oppositeDirection RIGHT = LEFT"
| "oppositeDirection NONE = NONE"

text \<open>\<open>board[pos.y]?.[pos.x]\<close>: \<open>None\<close> is JavaScript's \<open>undefined\<close>.\<close>

definition cellAt :: "Board \<Rightarrow> Position \<Rightarrow> CellType option" where
  "cellAt board pos =
    (if 0 \<le> y pos \<and> y pos < int (length board) then
       (let row = board ! nat (y pos)
        in if 0 \<le> x pos \<and> x pos < int (length row) then Some (row ! nat (x pos)) else None)
     else None)"

definition isWall :: "Position \<Rightarrow> Board \<Rightarrow> bool" where
  "isWall pos board =
    (let cell = cellAt board pos
     in cell = Some WALL \<or> cell = Some GHOST_HOME \<or> cell = Some GHOST_HOME_DOOR)"

section \<open>Player motion\<close>

text \<open>The updater that \<open>movePacman\<close> hands to \<open>setPacman\<close>; \<open>board\<close> is the callback's closure.\<close>

definition movePacman :: "Constants \<Rightarrow> Board \<Rightarrow> Pacman \<Rightarrow> Pacman" where
  "movePacman c board p =
    (if \<not> isWall (getNextPosition c (position p) (nextDirection p)) board then
       p\<lparr>position := getNextPosition c (position p) (nextDirection p),
         direction := nextDirection p,
         isMouthOpen := \<not> isMouthOpen p\<rparr>
     else if isWall (getNextPosition c (position p) (direction p)) board then
       p\<lparr>isMouthOpen := \<not> isMouthOpen p\<rparr>
     else
       p\<lparr>position := getNextPosition c (position p) (direction p),
         direction := direction p,
         isMouthOpen := \<not> isMouthOpen p\<rparr>)"

section \<open>Pathfinder\<close>

text \<open>
  \<open>findNextMove\<close> of App.tsx. The argument \<open>end\<close> is only ever read through its key
  \<open>`${end.x},${end.y}`\<close>, which is compared with the key of a cell; \<open>endPos\<close> is the cell
  with that key, \<open>None\<close> when no cell has it (an advisory entry without integer
  coordinates). \<open>visited\<close> is the set of keys, one per cell.
\<close>

type_synonym QEntry = "Position \<times> Direction"

text \<open>The first \<open>for\<close> loop, over the directions not yet tried from \<open>start\<close>.\<close>

fun findNextMove_start ::
  "Constants \<Rightarrow> Board \<Rightarrow> Position \<Rightarrow> Position option \<Rightarrow> GhostState \<Rightarrow> Direction list
    \<Rightarrow> Position set \<Rightarrow> QEntry list \<Rightarrow> Direction + (Position set \<times> QEntry list)" where
  "findNextMove_start c board start endPos ghostState [] visited queue = Inr (visited, queue)"
| "findNextMove_start c board start endPos ghostState (dir # dirs) visited queue =
    (let nextPos = getNextPosition c start dir
     in if y nextPos < 0 \<or> y nextPos \<ge> BOARD_HEIGHT c \<or> x nextPos < 0 \<or> x nextPos \<ge> BOARD_WIDTH c
        then findNextMove_start c board start endPos ghostState dirs visited queue
        else if cellAt board nextPos = Some WALL
        then findNextMove_start c board start endPos ghostState dirs visited queue
        else if cellAt board nextPos = Some GHOST_HOME \<and> ghostState \<noteq> eaten
        then findNextMove_start c board start endPos ghostState dirs visited queue
        else if Some nextPos = endPos then Inl dir
        else findNextMove_start c board start endPos ghostState dirs
               (insert nextPos visited) (queue @ [(nextPos, dir)]))"

text \<open>The \<open>for\<close> loop inside the \<open>while\<close>, for the entry \<open>(pos, firstStep)\<close> taken off the queue.\<close>

fun findNextMove_expand ::
  "Constants \<Rightarrow> Board \<Rightarrow> Position option \<Rightarrow> GhostState \<Rightarrow> Position \<Rightarrow> Direction \<Rightarrow> Direction list
    \<Rightarrow> Position set \<Rightarrow> QEntry list \<Rightarrow> Direction + (Position set \<times> QEntry list)" where
  "findNextMove_expand c board endPos ghostState pos firstStep [] visited queue = Inr (visited, queue)"
| "findNextMove_expand c board endPos ghostState pos firstStep (dir # dirs) visited queue =
    (let nextPos = getNextPosition c pos dir
     in if nextPos \<in> visited
        then findNextMove_expand c board endPos ghostState pos firstStep dirs visited queue
        else if cellAt board nextPos = Some WALL
        then findNextMove_expand c board endPos ghostState pos firstStep dirs visited queue
        else if cellAt board nextPos = Some GHOST_HOME \<and> ghostState \<noteq> eaten
        then findNextMove_expand c board endPos ghostState pos firstStep dirs visited queue
        else if Some nextPos = endPos then Inl firstStep
        else findNextMove_expand c board endPos ghostState pos firstStep dirs
               (insert nextPos visited) (queue @ [(nextPos, firstStep)]))"

text \<open>Every position \<open>getNextPosition\<close> can return lies in this finite set.\<close>

definition cells :: "Constants \<Rightarrow> Position set" where
  "cells c = (\<lambda>(a, b). \<lparr>x = a, y = b\<rparr>) `
     ({min 0 (BOARD_WIDTH c - 1) .. max 0 (BOARD_WIDTH c - 1)} \<times>
      {min 0 (BOARD_HEIGHT c - 1) .. max 0 (BOARD_HEIGHT c - 1)})"

lemma finite_cells: "finite (cells c)"
  by (simp add: cells_def)

lemma getNextPosition_cells: "getNextPosition c p d \<in> cells c"
proof -
  let ?q = "getNextPosition c p d"
  have "min 0 (BOARD_WIDTH c - 1) \<le> x ?q \<and> x ?q \<le> max 0 (BOARD_WIDTH c - 1)"
    by (auto simp: getNextPosition_def Let_def)
  moreover have "min 0 (BOARD_HEIGHT c - 1) \<le> y ?q \<and> y ?q \<le> max 0 (BOARD_HEIGHT c - 1)"
    by (auto simp: getNextPosition_def Let_def)
  moreover have "?q = (\<lambda>(a, b). \<lparr>x = a, y = b\<rparr>) (x ?q, y ?q)" by simp
  ultimately show ?thesis unfolding cells_def
    by (metis (no_types, lifting) atLeastAtMost_iff image_eqI mem_Sigma_iff)
qed

lemma findNextMove_expand_measure:
  "findNextMove_expand c board endPos st pos fs ds visited queue = Inr (visited', queue') \<Longrightarrow>
   card (cells c - visited') + length queue' = card (cells c - visited) + length queue
   \<and> length queue \<le> length queue'"
proof (induction ds arbitrary: visited queue)
  case Nil
  then show ?case by simp
next
  case (Cons d ds)
  let ?n = "getNextPosition c pos d"
  show ?case
  proof (cases "?n \<in> visited \<or> cellAt board ?n = Some WALL
                 \<or> (cellAt board ?n = Some GHOST_HOME \<and> st \<noteq> eaten)")
    case True
    with Cons.prems
    have "findNextMove_expand c board endPos st pos fs ds visited queue = Inr (visited', queue')"
      by (auto simp: Let_def split: if_splits)
    from Cons.IH[OF this] show ?thesis .
  next
    case False
    with Cons.prems
    have rec: "findNextMove_expand c board endPos st pos fs ds (insert ?n visited)
                 (queue @ [(?n, fs)]) = Inr (visited', queue')"
      by (auto simp: Let_def split: if_splits)
    from False have "?n \<in> cells c - visited" using getNextPosition_cells by simp
    then have "card (cells c - insert ?n visited) + 1 = card (cells c - visited)"
      using finite_cells[of c]
      by (metis Diff_insert add.commute card.remove finite_Diff plus_1_eq_Suc)
    with Cons.IH[OF rec] show ?thesis by simp
  qed
qed

text \<open>The \<open>while (head < queue.length)\<close> loop.\<close>

function findNextMove_loop ::
  "Constants \<Rightarrow> Board \<Rightarrow> Position option \<Rightarrow> GhostState \<Rightarrow> Position set \<Rightarrow> QEntry list \<Rightarrow> nat
    \<Rightarrow> Direction option" where
  "findNextMove_loop c board endPos ghostState visited queue head =
    (if head < length queue then
       (case findNextMove_expand c board endPos ghostState (fst (queue ! head)) (snd (queue ! head))
               [UP, DOWN, LEFT, RIGHT] visited queue of
          Inl firstStep \<Rightarrow> Some firstStep
        | Inr (visited', queue') \<Rightarrow>
            findNextMove_loop c board endPos ghostState visited' queue' (head + 1))
     else None)"
  by pat_completeness auto
termination
proof (relation "measure (\<lambda>(c, board, endPos, ghostState, visited, queue, head).
          card (cells c - visited) + length queue - head)")
  show "wf (measure (\<lambda>(c, board, endPos, ghostState, visited, queue, head).
          card (cells c - visited) + length queue - head))" by simp
next
  fix c board endPos ghostState visited queue head r v q
  assume h: "head < length queue"
    and e: "findNextMove_expand c board endPos ghostState (fst (queue ! head)) (snd (queue ! head))
             [UP, DOWN, LEFT, RIGHT] visited queue = Inr r"
    and vq: "(v, q) = r"
  from e vq
  have "findNextMove_expand c board endPos ghostState (fst (queue ! head)) (snd (queue ! head))
             [UP, DOWN, LEFT, RIGHT] visited queue = Inr (v, q)" by simp
  from findNextMove_expand_measure[OF this] h
  show "((c, board, endPos, ghostState, v, q, head + 1),
         (c, board, endPos, ghostState, visited, queue, head))
        \<in> measure (\<lambda>(c, board, endPos, ghostState, visited, queue, head).
          card (cells c - visited) + length queue - head)"
    by simp
qed

definition findNextMove ::
  "Constants \<Rightarrow> Board \<Rightarrow> Position \<Rightarrow> Position option \<Rightarrow> GhostState \<Rightarrow> Direction option" where
  "findNextMove c board start endPos ghostState =
    (case findNextMove_start c board start endPos ghostState [UP, DOWN, LEFT, RIGHT] {start} [] of
       Inl dir \<Rightarrow> Some dir
     | Inr (visited, queue) \<Rightarrow> findNextMove_loop c board endPos ghostState visited queue 0)"

section \<open>Targeting policy\<close>

definition getChaseTarget :: "Ghost \<Rightarrow> Pacman \<Rightarrow> Ghost list \<Rightarrow> Position" where
  "getChaseTarget ghost pac gs =
    (if gid ghost = 1 then position pac
     else if gid ghost = 2 then
       (case direction pac of
          UP \<Rightarrow> (position pac)\<lparr>y := y (position pac) - 4\<rparr>
        | DOWN \<Rightarrow> (position pac)\<lparr>y := y (position pac) + 4\<rparr>
        | LEFT \<Rightarrow> (position pac)\<lparr>x := x (position pac) - 4\<rparr>
        | RIGHT \<Rightarrow> (position pac)\<lparr>x := x (position pac) + 4\<rparr>
        | NONE \<Rightarrow> position pac)
     else if gid ghost = 3 then
       (case find (\<lambda>g. gid g = 1) gs of
          None \<Rightarrow> position pac
        | Some blinky \<Rightarrow>
            (let ox = (case direction pac of LEFT \<Rightarrow> - 2 | RIGHT \<Rightarrow> 2 | _ \<Rightarrow> 0);
                 oy = (case direction pac of UP \<Rightarrow> - 2 | DOWN \<Rightarrow> 2 | _ \<Rightarrow> 0);
                 pivotx = x (position pac) + ox;
                 pivoty = y (position pac) + oy
             in \<lparr>x = pivotx + (pivotx - x (gposition blinky)),
                 y = pivoty + (pivoty - y (gposition blinky))\<rparr>))
     else if gid ghost = 4 then
       \<comment> \<open>\<open>Math.sqrt(dx*dx + dy*dy) > 8\<close> on integers\<close>
       (if (x (gposition ghost) - x (position pac))\<^sup>2 + (y (gposition ghost) - y (position pac))\<^sup>2 > 64
        then position pac else scatterTarget ghost)
     else position pac)"

section \<open>Advisory targets\<close>

text \<open>
  What \<open>JSON.parse\<close> can return, as far as the program reads it: null, booleans, numbers
  and objects (strings and arrays are left out). A property key is the decimal of an
  integer (\<open>targets['1']\<close>, \<open>geminiTargets[ghost.id]\<close>) or another name (\<open>x\<close>, \<open>y\<close>).
\<close>

datatype key = Idx int | Name string

datatype json = JNull | JBool bool | JNum rat | JObj "(key \<times> json) list"

fun truthy :: "json \<Rightarrow> bool" where
  "truthy JNull = False"
| "truthy (JBool b) = b"
| "truthy (JNum q) = (q \<noteq> 0)"
| "truthy (JObj kvs) = True"

text \<open>\<open>v[k]\<close> for a value that is not null; \<open>None\<close> is \<open>undefined\<close>.\<close>

fun jsProp :: "json \<Rightarrow> key \<Rightarrow> json option" where
  "jsProp (JObj kvs) k = map_of kvs k"
| "jsProp v k = None"

definition truthyProp :: "json \<Rightarrow> key \<Rightarrow> bool" where
  "truthyProp v k = (case jsProp v k of None \<Rightarrow> False | Some w \<Rightarrow> truthy w)"

text \<open>The integer a coordinate prints as, if it prints as one.\<close>

definition coordinate :: "json option \<Rightarrow> int option" where
  "coordinate v =
    (case v of Some (JNum q) \<Rightarrow> (if of_int \<lfloor>q\<rfloor> = q then Some \<lfloor>q\<rfloor> else None) | _ \<Rightarrow> None)"

text \<open>The cell whose key is \<open>`${t.x},${t.y}`\<close>, if there is one.\<close>

definition targetCell :: "json \<Rightarrow> Position option" where
  "targetCell t =
    (case (coordinate (jsProp t (Name ''x'')), coordinate (jsProp t (Name ''y''))) of
       (Some a, Some b) \<Rightarrow> Some \<lparr>x = a, y = b\<rparr>
     | _ \<Rightarrow> None)"

section \<open>Ghost motion\<close>

text \<open>
  The function \<open>moveGhosts\<close> maps over the ghost list. \<open>board\<close>, \<open>pac\<close>, \<open>mode\<close> and
  \<open>targets\<close> are the callback's closure, \<open>currentGhosts\<close> the list being mapped, and \<open>rnd\<close>
  stands for \<open>Math.floor(Math.random() * validDirections.length)\<close>, taken modulo the
  length so that it ranges over the same indices.
\<close>

definition moveGhost ::
  "Constants \<Rightarrow> Board \<Rightarrow> Pacman \<Rightarrow> GhostMode \<Rightarrow> json option \<Rightarrow> nat \<Rightarrow> Ghost list \<Rightarrow> Ghost \<Rightarrow> Ghost" where
  "moveGhost c board pac mode targets rnd currentGhosts ghost =
    (if gstate ghost = eaten then
       (if x (gposition ghost) = x (spawn ghost) \<and> y (gposition ghost) = y (spawn ghost)
        then ghost\<lparr>gstate := normal, gdirection := UP\<rparr>
        else
          (let nextDir = findNextMove c board (gposition ghost) (Some (spawn ghost)) (gstate ghost);
               d = (case nextDir of Some d \<Rightarrow> d | None \<Rightarrow> oppositeDirection (gdirection ghost))
           in ghost\<lparr>gposition := getNextPosition c (gposition ghost) d, gdirection := d\<rparr>))
     else if gstate ghost = frightened then
       (let validDirections =
              filter (\<lambda>dir. dir \<noteq> oppositeDirection (gdirection ghost)
                         \<and> cellAt board (getNextPosition c (gposition ghost) dir) \<noteq> Some WALL
                         \<and> cellAt board (getNextPosition c (gposition ghost) dir) \<noteq> Some GHOST_HOME)
                [UP, DOWN, LEFT, RIGHT];
            nextDir = (if length validDirections > 0
                       then validDirections ! (rnd mod length validDirections)
                       else oppositeDirection (gdirection ghost))
        in ghost\<lparr>gposition := getNextPosition c (gposition ghost) nextDir, gdirection := nextDir\<rparr>)
     else
       (let targetPos =
              (if mode = chase \<and>
                  (case targets of None \<Rightarrow> False
                   | Some t \<Rightarrow> truthy t \<and> truthyProp t (Idx (gid ghost)))
               then targetCell (the (jsProp (the targets) (Idx (gid ghost))))
               else Some (if mode = chase then getChaseTarget ghost pac currentGhosts
                          else scatterTarget ghost));
            bestDir = findNextMove c board (gposition ghost) targetPos (gstate ghost);
            d = (case bestDir of Some d \<Rightarrow> d | None \<Rightarrow> gdirection ghost)
        in ghost\<lparr>gposition := getNextPosition c (gposition ghost) d, gdirection := d\<rparr>))"

section \<open>Simulation state\<close>

datatype HiveMindStatus = offline | thinking | active | error

text \<open>A tick count: \<open>duration / GAME_SPEED\<close>, or JavaScript's \<open>Infinity\<close>.\<close>

datatype Ticks = Finite rat | Infinity

definition GHOST_MODE_SCHEDULE :: "(GhostMode \<times> Ticks) list" where
  "GHOST_MODE_SCHEDULE =
    [(scatter, Finite 7000), (chase, Finite 20000), (scatter, Finite 7000), (chase, Finite 20000),
     (scatter, Finite 5000), (chase, Finite 20000), (scatter, Finite 5000), (chase, Infinity)]"

definition ticksOf :: "Constants \<Rightarrow> Ticks \<Rightarrow> Ticks" where
  "ticksOf c d =
    (case d of Infinity \<Rightarrow> Infinity
     | Finite ms \<Rightarrow> (if GAME_SPEED c = 0 then Infinity else Finite (ms / GAME_SPEED c)))"

text \<open>The React state of \<open>App\<close>: one field per \<open>useState\<close>.\<close>

record Game =
  board :: Board
  pacman :: Pacman
  ghosts :: "Ghost list"
  gameState :: GameState
  score :: int
  lives :: int
  eatenPellets :: int
  frightenedTicks :: int
  ghostMode :: GhostMode
  modeTicks :: Ticks
  scheduleIndex :: nat
  hiveMindStatus :: HiveMindStatus
  geminiTargets :: "json option"

text \<open>
  A callback of a tick reads the state of the last render \<open>r\<close> through its closure, and
  queues updates; an updater function is applied to the pending state \<open>s\<close>.
\<close>

definition moveGhosts :: "Constants \<Rightarrow> (nat \<Rightarrow> nat) \<Rightarrow> Game \<Rightarrow> Game \<Rightarrow> Game" where
  "moveGhosts c rnd r s =
    s\<lparr>ghosts := map (\<lambda>(i, ghost).
          moveGhost c (board r) (pacman r) (ghostMode r) (geminiTargets r) (rnd i) (ghosts s) ghost)
        (enumerate 0 (ghosts s))\<rparr>"

definition movePacmanTick :: "Constants \<Rightarrow> Game \<Rightarrow> Game \<Rightarrow> Game" where
  "movePacmanTick c r s = s\<lparr>pacman := movePacman c (board r) (pacman s)\<rparr>"

section \<open>Collision and consumption\<close>

text \<open>The table \<open>oppositeDirection\<close> local to \<open>handleCollisions\<close>: it sends \<open>NONE\<close> to \<open>UP\<close>.\<close>

fun oppositeDirectionHC :: "Direction \<Rightarrow> Direction" where
  "oppositeDirectionHC UP = DOWN"
| "oppositeDirectionHC DOWN = UP"
| "oppositeDirectionHC LEFT = RIGHT"
| "oppositeDirectionHC RIGHT = LEFT"
| "oppositeDirectionHC NONE = UP"

text \<open>
  The loop \<open>for (const ghost of ghosts)\<close> over the closure's ghosts, at the closure's player
  cell \<open>pp\<close>; the result says whether \<open>pacmanHasDied\<close>.
\<close>

fun ghostLoop :: "Position \<Rightarrow> Ghost list \<Rightarrow> Game \<Rightarrow> bool \<times> Game" where
  "ghostLoop pp [] s = (False, s)"
| "ghostLoop pp (ghost # rest) s =
    (if x (gposition ghost) = x pp \<and> y (gposition ghost) = y pp then
       (if gstate ghost = frightened then
          ghostLoop pp rest
            (s\<lparr>score := score s + 200,
               ghosts := map (\<lambda>g. if gid g = gid ghost then g\<lparr>gstate := eaten\<rparr> else g) (ghosts s)\<rparr>)
        else if gstate ghost = normal then (True, s)
        else ghostLoop pp rest s)
     else ghostLoop pp rest s)"

text \<open>\<open>newBoard[pos.y][pos.x] = cell\<close> on a copy of the board, for a cell of the board.\<close>

definition setCell :: "Board \<Rightarrow> Position \<Rightarrow> CellType \<Rightarrow> Board" where
  "setCell b pos cell = b[nat (y pos) := (b ! nat (y pos))[nat (x pos) := cell]]"

definition frighten :: "Ghost \<Rightarrow> Ghost" where
  "frighten g =
    (if gstate g \<noteq> eaten
     then g\<lparr>gstate := frightened, gdirection := oppositeDirectionHC (gdirection g)\<rparr>
     else g)"

definition handleCollisions :: "Constants \<Rightarrow> Game \<Rightarrow> Game \<Rightarrow> Game" where
  "handleCollisions c r s =
    (case ghostLoop (position (pacman r)) (ghosts r) s of
       (pacmanHasDied, s1) \<Rightarrow>
         if pacmanHasDied then s1\<lparr>lives := lives s1 - 1, gameState := PAUSED\<rparr>
         else
           (let cellUnderPacman = cellAt (board r) (position (pacman r))
            in if cellUnderPacman = Some PELLET \<or> cellUnderPacman = Some POWER_PELLET then
                 (let s2 = (if cellUnderPacman = Some PELLET then s1\<lparr>score := score s1 + 10\<rparr>
                            else s1\<lparr>score := score s1 + 50,
                                    frightenedTicks := FRIGHTENED_DURATION c,
                                    ghosts := map frighten (ghosts s1)\<rparr>)
                  in s2\<lparr>eatenPellets := eatenPellets s2 + 1,
                        board := setCell (board r) (position (pacman r)) EMPTY\<rparr>)
               else s1))"

section \<open>Simulation clock\<close>

text \<open>
  \<open>gameTick\<close>, run by the interval on the state \<open>r\<close> of the last render: the three
  callbacks, then the timers. \<open>frightenedTicks\<close> and \<open>scheduleIndex\<close> are read from the
  closure; \<open>setModeTicks\<close> gets an updater.
\<close>

definition advanceTimers :: "Constants \<Rightarrow> Game \<Rightarrow> Game \<Rightarrow> Game" where
  "advanceTimers c r s =
    (if frightenedTicks r > 0 then
       (let newTicks = frightenedTicks r - 1;
            s1 = s\<lparr>frightenedTicks := newTicks\<rparr>
        in if newTicks = 0
           then s1\<lparr>ghosts := map (\<lambda>g. if gstate g = frightened then g\<lparr>gstate := normal\<rparr> else g)
                                 (ghosts s1)\<rparr>
           else s1)
     else
       (case modeTicks s of
          Infinity \<Rightarrow> s
        | Finite t \<Rightarrow>
            if t - 1 \<le> 0 then
              (let newIndex = (scheduleIndex r + 1) mod length GHOST_MODE_SCHEDULE;
                   nextEntry = GHOST_MODE_SCHEDULE ! newIndex
               in s\<lparr>scheduleIndex := newIndex, ghostMode := fst nextEntry,
                     modeTicks := ticksOf c (snd nextEntry)\<rparr>)
            else s\<lparr>modeTicks := Finite (t - 1)\<rparr>))"

definition gameTick :: "Constants \<Rightarrow> (nat \<Rightarrow> nat) \<Rightarrow> Game \<Rightarrow> Game" where
  "gameTick c rnd r =
    advanceTimers c r (handleCollisions c r (moveGhosts c rnd r (movePacmanTick c r r)))"

text \<open>The interval only runs while the game is in state \<open>PLAYING\<close>.\<close>

definition clockTick :: "Constants \<Rightarrow> (nat \<Rightarrow> nat) \<Rightarrow> Game \<Rightarrow> Game" where
  "clockTick c rnd r = (if gameState r \<noteq> PLAYING then r else gameTick c rnd r)"

text \<open>The two effects that run after a render: game over, and level won.\<close>

definition livesEffect :: "Game \<Rightarrow> Game" where
  "livesEffect s =
    (if lives s \<le> 0 \<and> gameState s \<noteq> GAME_OVER then s\<lparr>gameState := GAME_OVER\<rparr> else s)"

definition pelletsEffect :: "Constants \<Rightarrow> Game \<Rightarrow> Game" where
  "pelletsEffect c s =
    (if eatenPellets s > 0 \<and> eatenPellets s = TOTAL_PELLETS c
     then s\<lparr>gameState := LEVEL_WON\<rparr> else s)"

text \<open>
  What \<open>callHiveMind\<close> does with the answer of the service: \<open>None\<close> when the call, \<open>trim\<close>
  or \<open>JSON.parse\<close> threw, else the parsed value.
\<close>

definition validTargets :: "json \<Rightarrow> bool" where
  "validTargets t =
    (truthy t \<and> truthyProp t (Idx 1) \<and> truthyProp t (Idx 2) \<and> truthyProp t (Idx 3)
      \<and> truthyProp t (Idx 4))"

definition hiveMindResponse :: "json option \<Rightarrow> Game \<Rightarrow> Game" where
  "hiveMindResponse response s =
    (case response of
       None \<Rightarrow> s\<lparr>hiveMindStatus := error\<rparr>
     | Some t \<Rightarrow>
         if validTargets t then s\<lparr>geminiTargets := Some t, hiveMindStatus := active\<rparr>
         else s\<lparr>hiveMindStatus := error\<rparr>)"

section \<open>The revision with \<open>isBlockedForGhost\<close> (src/unnamed/part_001)\<close>

text \<open>
  A second revision of App.tsx in the repository checks every ghost step with one
  function of the cell left and the cell entered, and has a rule against reversing in
  the branch for normal ghosts. \<open>moveNormalGhost\<close> is that branch after the call of
  \<open>findNextMove\<close>, whose result is \<open>bestDir\<close>; \<open>bestDir && ...\<close> is false for \<open>null\<close> and
  for \<open>Direction.UP\<close>, which is the number 0.
\<close>

definition isBlockedForGhost :: "Position \<Rightarrow> Position \<Rightarrow> Board \<Rightarrow> GhostState \<Rightarrow> bool" where
  "isBlockedForGhost currentPos nextPos b state =
    (let nextCell = cellAt b nextPos
     in if nextCell = None then True
        else if nextCell = Some WALL then True
        else
          (let currentCell = cellAt b currentPos;
               isEnteringGhostHome =
                 ((nextCell = Some GHOST_HOME \<or> nextCell = Some GHOST_HOME_DOOR)
                  \<and> currentCell \<noteq> Some GHOST_HOME \<and> currentCell \<noteq> Some GHOST_HOME_DOOR)
           in if isEnteringGhostHome \<and> state \<noteq> eaten then True else False))"

definition safeGhostStep ::
  "Constants \<Rightarrow> Position \<Rightarrow> Direction \<Rightarrow> Board \<Rightarrow> GhostState \<Rightarrow> (Position \<times> Direction) option" where
  "safeGhostStep c pos dir b state =
    (if dir = NONE then None
     else (let nxt = getNextPosition c pos dir
           in if isBlockedForGhost pos nxt b state then None else Some (nxt, dir)))"

fun tryGhostMoves ::
  "Constants \<Rightarrow> Position \<Rightarrow> Direction list \<Rightarrow> Board \<Rightarrow> GhostState \<Rightarrow> (Position \<times> Direction) option" where
  "tryGhostMoves c pos [] b state = None"
| "tryGhostMoves c pos (d # candidates) b state =
    (case safeGhostStep c pos d b state of
       Some step \<Rightarrow> Some step
     | None \<Rightarrow> tryGhostMoves c pos candidates b state)"

definition moveNormalGhost ::
  "Constants \<Rightarrow> Board \<Rightarrow> Ghost \<Rightarrow> Direction option \<Rightarrow> Ghost" where
  "moveNormalGhost c b ghost bestDir =
    (let candidates = filter (\<lambda>d. d \<noteq> oppositeDirection (gdirection ghost)) [UP, DOWN, LEFT, RIGHT];
         first = (case bestDir of
                    None \<Rightarrow> None
                  | Some d \<Rightarrow> if d \<noteq> UP \<and> d \<in> set candidates
                              then safeGhostStep c (gposition ghost) d b (gstate ghost) else None)
     in case first of
          Some step \<Rightarrow> ghost\<lparr>gposition := fst step, gdirection := snd step\<rparr>
        | None \<Rightarrow>
            (let moveOrder = gdirection ghost # filter (\<lambda>d. d \<noteq> gdirection ghost) candidates
             in case tryGhostMoves c (gposition ghost) moveOrder b (gstate ghost) of
                  Some step \<Rightarrow> ghost\<lparr>gposition := fst step, gdirection := snd step\<rparr>
                | None \<Rightarrow> ghost))"

section \<open>Walks on the board\<close>

text \<open>
  The graph that \<open>findNextMove\<close> searches: a ghost in state \<open>st\<close> may step from a cell to
  the cell \<open>getNextPosition\<close> gives for one of the four directions when the test of
  both loops lets that cell pass. \<open>walk n p q\<close>: \<open>n\<close> such steps lead from \<open>p\<close> to \<open>q\<close>.
\<close>

definition directions :: "Direction list" where
  "directions = [UP, DOWN, LEFT, RIGHT]"

definition openCell :: "Board \<Rightarrow> GhostState \<Rightarrow> Position \<Rightarrow> bool" where
  "openCell b st p = (cellAt b p \<noteq> Some WALL \<and> \<not> (cellAt b p = Some GHOST_HOME \<and> st \<noteq> eaten))"

fun walk :: "Constants \<Rightarrow> Board \<Rightarrow> GhostState \<Rightarrow> nat \<Rightarrow> Position \<Rightarrow> Position \<Rightarrow> bool" where
  "walk c b st 0 p q = (p = q)"
| "walk c b st (Suc n) p q =
    (\<exists>d \<in> set directions. openCell b st (getNextPosition c p d)
        \<and> walk c b st n (getNextPosition c p d) q)"

text \<open>The place of a direction in the order of expansion.\<close>

fun rank :: "Direction \<Rightarrow> nat" where
  "rank UP = 0"
| "rank DOWN = 1"
| "rank LEFT = 2"
| "rank RIGHT = 3"
| "rank NONE = 4"

definition goodStep ::
  "Constants \<Rightarrow> Board \<Rightarrow> GhostState \<Rightarrow> Position \<Rightarrow> Position \<Rightarrow> Direction \<Rightarrow> bool" where
  "goodStep c b st start goal r =
    (r \<in> set directions \<and> openCell b st (getNextPosition c start r)
     \<and> (\<exists>n. walk c b st n (getNextPosition c start r) goal
            \<and> (\<forall>m. walk c b st m start goal \<longrightarrow> Suc n \<le> m)
            \<and> (\<forall>d \<in> set directions. rank d < rank r \<longrightarrow>
                  \<not> (openCell b st (getNextPosition c start d)
                     \<and> walk c b st n (getNextPosition c start d) goal))))"

text \<open>
  The invariant of the search. \<open>L\<close> gives the level of each entry of the queue: the
  number of steps of the walk from \<open>start\<close> that the entry records.
\<close>

text \<open>An entry of the queue at level \<open>l\<close>: a walk of \<open>l\<close> steps from \<open>start\<close> that begins with its first step.\<close>

definition entryOk ::
  "Constants \<Rightarrow> Board \<Rightarrow> GhostState \<Rightarrow> Position \<Rightarrow> nat \<Rightarrow> QEntry \<Rightarrow> bool" where
  "entryOk c b st start l e =
    (1 \<le> l \<and> snd e \<in> set directions \<and> openCell b st (getNextPosition c start (snd e))
     \<and> walk c b st (l - 1) (getNextPosition c start (snd e)) (fst e))"

definition closedAt :: "Constants \<Rightarrow> Board \<Rightarrow> GhostState \<Rightarrow> Position set \<Rightarrow> Position \<Rightarrow> bool" where
  "closedAt c b st V p =
    (\<forall>d \<in> set directions. openCell b st (getNextPosition c p d) \<longrightarrow> getNextPosition c p d \<in> V)"

definition minimalAt ::
  "Constants \<Rightarrow> Board \<Rightarrow> GhostState \<Rightarrow> Position \<Rightarrow> nat \<Rightarrow> Position \<Rightarrow> bool" where
  "minimalAt c b st start l p = (p \<noteq> start \<longrightarrow> (\<forall>m. walk c b st m start p \<longrightarrow> l \<le> m))"

definition levelComplete ::
  "Constants \<Rightarrow> Board \<Rightarrow> GhostState \<Rightarrow> Position \<Rightarrow> nat list \<Rightarrow> QEntry list \<Rightarrow> nat \<Rightarrow> bool" where
  "levelComplete c b st start L queue head =
    (\<forall>m w. m < L ! head \<and> walk c b st m start w
       \<longrightarrow> w = start \<or> (\<exists>i < head. w = fst (queue ! i)))"

text \<open>
  Entries of one level stand in the queue in the order of their first steps, and no
  entry of the level after the head's has a later first step than the head.
\<close>

definition labelsSorted :: "nat list \<Rightarrow> QEntry list \<Rightarrow> bool" where
  "labelsSorted L queue =
    (\<forall>i j. i \<le> j \<and> j < length queue \<and> L ! i = L ! j
       \<longrightarrow> rank (snd (queue ! i)) \<le> rank (snd (queue ! j)))"

definition nextLevelBound :: "nat list \<Rightarrow> QEntry list \<Rightarrow> nat \<Rightarrow> bool" where
  "nextLevelBound L queue head =
    (\<forall>i < length queue. L ! i = L ! head + 1
       \<longrightarrow> rank (snd (queue ! i)) \<le> rank (snd (queue ! head)))"

text \<open>
  The first entry of a cell carries the earliest first step among the walks of its level.
\<close>

definition firstAt :: "QEntry list \<Rightarrow> nat \<Rightarrow> bool" where
  "firstAt queue i = (\<forall>j < i. fst (queue ! j) \<noteq> fst (queue ! i))"

definition labelMin ::
  "Constants \<Rightarrow> Board \<Rightarrow> GhostState \<Rightarrow> Position \<Rightarrow> nat \<Rightarrow> QEntry \<Rightarrow> bool" where
  "labelMin c b st start l e =
    (\<forall>d \<in> set directions. rank d < rank (snd e) \<longrightarrow>
       \<not> (openCell b st (getNextPosition c start d)
          \<and> walk c b st (l - 1) (getNextPosition c start d) (fst e)))"

definition labelOk ::
  "Constants \<Rightarrow> Board \<Rightarrow> GhostState \<Rightarrow> Position \<Rightarrow> nat list \<Rightarrow> QEntry list \<Rightarrow> nat \<Rightarrow> bool" where
  "labelOk c b st start L queue i =
    (firstAt queue i \<and> fst (queue ! i) \<noteq> start \<longrightarrow> labelMin c b st start (L ! i) (queue ! i))"

definition bfsInv ::
  "Constants \<Rightarrow> Board \<Rightarrow> GhostState \<Rightarrow> Position \<Rightarrow> Position \<Rightarrow> nat list \<Rightarrow> Position set
    \<Rightarrow> QEntry list \<Rightarrow> nat \<Rightarrow> bool" where
  "bfsInv c b st start goal L visited queue head =
    (length L = length queue \<and> head \<le> length queue
     \<and> (\<forall>i < length queue. entryOk c b st start (L ! i) (queue ! i))
     \<and> sorted L
     \<and> (\<forall>i < length queue. head < length queue \<longrightarrow> L ! i \<le> L ! head + 1)
     \<and> visited = insert start (fst ` set queue)
     \<and> goal \<notin> visited
     \<and> closedAt c b st visited start
     \<and> (\<forall>i < head. closedAt c b st visited (fst (queue ! i)))
     \<and> (\<forall>i < length queue. minimalAt c b st start (L ! i) (fst (queue ! i)))
     \<and> (head < length queue \<longrightarrow> levelComplete c b st start L queue head)
     \<and> labelsSorted L queue
     \<and> (head < length queue \<longrightarrow> nextLevelBound L queue head)
     \<and> (\<forall>i < length queue. labelOk c b st start L queue i))"

text \<open>The invariant of the first loop, and what it has queued once the directions \<open>ds\<close> remain.\<close>

definition startInv ::
  "Constants \<Rightarrow> Board \<Rightarrow> GhostState \<Rightarrow> Position \<Rightarrow> Position \<Rightarrow> Position set \<Rightarrow> QEntry list \<Rightarrow> bool" where
  "startInv c b st start goal visited queue =
    ((\<forall>e \<in> set queue. snd e \<in> set directions \<and> fst e = getNextPosition c start (snd e)
          \<and> openCell b st (fst e))
     \<and> visited = insert start (fst ` set queue) \<and> goal \<notin> visited
     \<and> sorted (map (\<lambda>e. rank (snd e)) queue))"

definition ringComplete ::
  "Constants \<Rightarrow> Board \<Rightarrow> GhostState \<Rightarrow> Position \<Rightarrow> Direction list \<Rightarrow> QEntry list \<Rightarrow> bool" where
  "ringComplete c b st start ds queue =
    (\<forall>d \<in> set directions - set ds. openCell b st (getNextPosition c start d)
        \<longrightarrow> (getNextPosition c start d, d) \<in> set queue)"

section \<open>Vocabulary of the properties\<close>

text \<open>
  The ghosts that \<open>ghostLoop\<close> meets on the player's cell: a normal one is fatal and stops
  the loop, the frightened ones before it are scored and eaten.
\<close>

definition onCell :: "Position \<Rightarrow> Ghost \<Rightarrow> bool" where
  "onCell pp g = (x (gposition g) = x pp \<and> y (gposition g) = y pp)"

definition fatalGhost :: "Position \<Rightarrow> Ghost \<Rightarrow> bool" where
  "fatalGhost pp g = (onCell pp g \<and> gstate g = normal)"

definition scoredGhosts :: "Position \<Rightarrow> Ghost list \<Rightarrow> Ghost list" where
  "scoredGhosts pp gs =
    filter (\<lambda>g. onCell pp g \<and> gstate g = frightened) (takeWhile (\<lambda>g. \<not> fatalGhost pp g) gs)"

definition eatAll :: "Ghost list \<Rightarrow> Ghost \<Rightarrow> Ghost" where
  "eatAll es g = (if gid g \<in> gid ` set es then g\<lparr>gstate := eaten\<rparr> else g)"

definition isPelletCell :: "CellType \<Rightarrow> bool" where
  "isPelletCell cell = (cell = PELLET \<or> cell = POWER_PELLET)"

definition remainingPellets :: "Board \<Rightarrow> nat" where
  "remainingPellets b = sum_list (map (\<lambda>row. length (filter isPelletCell row)) b)"

text \<open>What the specification asks of an accepted answer: a cell for each of the ids 1 to 4.\<close>

definition integerTargets :: "json \<Rightarrow> bool" where
  "integerTargets t =
    list_all (\<lambda>i. case jsProp t (Idx i) of None \<Rightarrow> False | Some e \<Rightarrow> targetCell e \<noteq> None) [1, 2, 3, 4]"

text \<open>Example answers of the advisory service.\<close>

definition halfTarget :: json where
  "halfTarget = JObj [(Name ''x'', JNum (1 / 2)), (Name ''y'', JNum 1)]"

definition halfTargets :: json where
  "halfTargets = JObj [(Idx 1, halfTarget), (Idx 2, halfTarget), (Idx 3, halfTarget), (Idx 4, halfTarget)]"


definition wholeTarget :: json where
  "wholeTarget = JObj [(Name ''x'', JNum 2), (Name ''y'', JNum 1)]"

definition wholeTargets :: json where
  "wholeTargets = JObj [(Idx 1, wholeTarget), (Idx 2, wholeTarget), (Idx 3, wholeTarget), (Idx 4, wholeTarget)]"

definition partialTargets :: json where
  "partialTargets = JObj [(Idx 1, wholeTarget), (Idx 2, wholeTarget), (Idx 3, wholeTarget)]"

section \<open>Example boards and states\<close>

text \<open>A corridor of three cells between walls, \<open>(0,1)\<close> to \<open>(2,1)\<close>, on a board of 4 by 3.\<close>

definition corridorBoard :: Board where
  "corridorBoard =
    [[WALL, WALL, WALL, WALL],
     [PELLET, EMPTY, POWER_PELLET, WALL],
     [WALL, WALL, WALL, WALL]]"

definition corridor :: Constants where
  "corridor = \<lparr>BOARD_WIDTH = 4, BOARD_HEIGHT = 3, FRIGHTENED_DURATION = 5, TOTAL_PELLETS = 2,
                GAME_SPEED = 100, INITIAL_BOARD = corridorBoard\<rparr>"

definition examplePacman :: Pacman where
  "examplePacman = \<lparr>position = \<lparr>x = 0, y = 1\<rparr>, direction = RIGHT, nextDirection = RIGHT, isMouthOpen = True\<rparr>"

definition exampleGhost :: Ghost where
  "exampleGhost = \<lparr>gid = 1, gposition = \<lparr>x = 1, y = 1\<rparr>, gdirection = RIGHT, gstate = normal,
     spawn = \<lparr>x = 1, y = 1\<rparr>, scatterTarget = \<lparr>x = 0, y = 1\<rparr>\<rparr>"

definition exampleGame :: Game where
  "exampleGame = \<lparr>board = corridorBoard, pacman = examplePacman, ghosts = [exampleGhost],
     gameState = PLAYING, score = 0, lives = 3, eatenPellets = 0, frightenedTicks = 0,
     ghostMode = scatter, modeTicks = Finite 70, scheduleIndex = 0, hiveMindStatus = offline,
     geminiTargets = None\<rparr>"

text \<open>The player held in place on a cell, a normal ghost on it and a second one about to enter it.\<close>

definition heldPacman :: "Position \<Rightarrow> Pacman" where
  "heldPacman pos = \<lparr>position = pos, direction = UP, nextDirection = UP, isMouthOpen = True\<rparr>"

definition fatalOnPellet :: Game where
  "fatalOnPellet = exampleGame
     \<lparr>pacman := heldPacman \<lparr>x = 0, y = 1\<rparr>,
      ghosts := [exampleGhost\<lparr>gposition := \<lparr>x = 0, y = 1\<rparr>, gdirection := LEFT\<rparr>,
                 exampleGhost\<lparr>gid := 2, gdirection := LEFT\<rparr>]\<rparr>"

definition fatalOnPowerPellet :: Game where
  "fatalOnPowerPellet = exampleGame
     \<lparr>pacman := heldPacman \<lparr>x = 2, y = 1\<rparr>,
      ghosts := [exampleGhost\<lparr>gposition := \<lparr>x = 2, y = 1\<rparr>, scatterTarget := \<lparr>x = 2, y = 1\<rparr>\<rparr>,
                 exampleGhost\<lparr>gid := 2, scatterTarget := \<lparr>x = 2, y = 1\<rparr>\<rparr>]\<rparr>"

definition powerPelletGame :: Game where
  "powerPelletGame = exampleGame
     \<lparr>pacman := heldPacman \<lparr>x = 2, y = 1\<rparr>,
      ghosts := [exampleGhost\<lparr>gposition := \<lparr>x = 2, y = 1\<rparr>, gstate := frightened\<rparr>,
                 exampleGhost\<lparr>gid := 2, gposition := \<lparr>x = 0, y = 1\<rparr>\<rparr>]\<rparr>"

definition frightenedGame :: Game where
  "frightenedGame = exampleGame
     \<lparr>frightenedTicks := 1, ghosts := [exampleGhost\<lparr>gstate := frightened\<rparr>]\<rparr>"

text \<open>A ghost house of one cell behind its door, above a crossing.\<close>

definition homeBoard :: Board where
  "homeBoard =
    [[WALL, GHOST_HOME, WALL],
     [WALL, GHOST_HOME_DOOR, WALL],
     [EMPTY, EMPTY, EMPTY],
     [WALL, EMPTY, WALL],
     [WALL, EMPTY, WALL],
     [WALL, PELLET, WALL],
     [WALL, WALL, WALL]]"

definition homeConstants :: Constants where
  "homeConstants = \<lparr>BOARD_WIDTH = 3, BOARD_HEIGHT = 7, FRIGHTENED_DURATION = 5, TOTAL_PELLETS = 1,
                GAME_SPEED = 100, INITIAL_BOARD = homeBoard\<rparr>"

definition pinky :: Ghost where
  "pinky = \<lparr>gid = 2, gposition = \<lparr>x = 1, y = 2\<rparr>, gdirection = LEFT, gstate = normal,
     spawn = \<lparr>x = 1, y = 0\<rparr>, scatterTarget = \<lparr>x = 0, y = 2\<rparr>\<rparr>"

definition pacmanBelow :: Pacman where
  "pacmanBelow = \<lparr>position = \<lparr>x = 1, y = 5\<rparr>, direction = UP, nextDirection = UP, isMouthOpen = True\<rparr>"


section \<open>Lemmas\<close>

subsection \<open>The search\<close>

declare findNextMove_expand.simps [simp del] findNextMove_start.simps [simp del]
  findNextMove_loop.simps [simp del]

lemma walk_snoc:
  "walk c b st n p q \<Longrightarrow> d \<in> set directions \<Longrightarrow> openCell b st (getNextPosition c q d)
   \<Longrightarrow> walk c b st (Suc n) p (getNextPosition c q d)"
proof (induction n arbitrary: p)
  case 0
  then show ?case by auto
next
  case (Suc n)
  from Suc.prems(1) obtain e where e: "e \<in> set directions" "openCell b st (getNextPosition c p e)"
    "walk c b st n (getNextPosition c p e) q" by auto
  from Suc.IH[OF e(3) Suc.prems(2,3)] e(1,2) show ?case by auto
qed

lemma walk_last:
  "walk c b st (Suc n) p q \<Longrightarrow>
   \<exists>w d. walk c b st n p w \<and> d \<in> set directions \<and> q = getNextPosition c w d \<and> openCell b st q"
proof (induction n arbitrary: p)
  case 0
  then show ?case by auto
next
  case (Suc n)
  from Suc.prems obtain e where e: "e \<in> set directions" "openCell b st (getNextPosition c p e)"
    "walk c b st (Suc n) (getNextPosition c p e) q" by auto
  from Suc.IH[OF e(3)] obtain w d where wd: "walk c b st n (getNextPosition c p e) w"
    "d \<in> set directions" "q = getNextPosition c w d" "openCell b st q" by blast
  from wd(1) e(1,2) have "walk c b st (Suc n) p w" by auto
  with wd(2,3,4) show ?case by blast
qed

lemma closed_walk:
  assumes "\<And>p d. p \<in> V \<Longrightarrow> d \<in> set directions \<Longrightarrow> openCell b st (getNextPosition c p d)
             \<Longrightarrow> getNextPosition c p d \<in> V"
  shows "walk c b st n p q \<Longrightarrow> p \<in> V \<Longrightarrow> q \<in> V"
proof (induction n arbitrary: p)
  case 0
  then show ?case by simp
next
  case (Suc n)
  from Suc.prems(1) obtain e where e: "e \<in> set directions" "openCell b st (getNextPosition c p e)"
    "walk c b st n (getNextPosition c p e) q" by auto
  from assms[OF Suc.prems(2) e(1,2)] Suc.IH[OF e(3)] show ?case by blast
qed

lemma bfsInvD:
  assumes "bfsInv c b st start goal L visited queue head"
  shows "length L = length queue" and "head \<le> length queue"
    and "\<And>i. i < length queue \<Longrightarrow> entryOk c b st start (L ! i) (queue ! i)"
    and "sorted L"
    and "\<And>i. head < length queue \<Longrightarrow> i < length queue \<Longrightarrow> L ! i \<le> L ! head + 1"
    and "visited = insert start (fst ` set queue)"
    and "goal \<notin> visited"
    and "closedAt c b st visited start"
    and "\<And>i. i < head \<Longrightarrow> closedAt c b st visited (fst (queue ! i))"
    and "\<And>i. i < length queue \<Longrightarrow> minimalAt c b st start (L ! i) (fst (queue ! i))"
    and "head < length queue \<Longrightarrow> levelComplete c b st start L queue head"
    and "labelsSorted L queue"
    and "head < length queue \<Longrightarrow> nextLevelBound L queue head"
    and "\<And>i. i < length queue \<Longrightarrow> labelOk c b st start L queue i"
  using assms unfolding bfsInv_def by auto

lemma closedAtD:
  "closedAt c b st V p \<Longrightarrow> d \<in> set directions \<Longrightarrow> openCell b st (getNextPosition c p d)
   \<Longrightarrow> getNextPosition c p d \<in> V"
  unfolding closedAt_def by blast

lemma closedAt_mono: "closedAt c b st V p \<Longrightarrow> V \<subseteq> V' \<Longrightarrow> closedAt c b st V' p"
  unfolding closedAt_def by blast

text \<open>Below the level of the head, every open neighbour is visited.\<close>

lemma bfsInv_below:
  assumes inv: "bfsInv c b st start goal L visited queue head" and h: "head < length queue"
    and m: "m < L ! head" and w: "walk c b st m start w"
    and d: "d \<in> set directions" and o: "openCell b st (getNextPosition c w d)"
  shows "getNextPosition c w d \<in> visited"
proof -
  note D = bfsInvD[OF inv]
  from D(11)[OF h] m w have "w = start \<or> (\<exists>i < head. w = fst (queue ! i))"
    unfolding levelComplete_def by blast
  then show ?thesis
  proof
    assume "w = start"
    with closedAtD[OF D(8) d] o show ?thesis by simp
  next
    assume "\<exists>i < head. w = fst (queue ! i)"
    then obtain i where i: "i < head" "w = fst (queue ! i)" by blast
    with closedAtD[OF D(9)[OF i(1)] d] o show ?thesis by simp
  qed
qed

text \<open>An unvisited cell is reached in no fewer steps than the level of the head plus one.\<close>

lemma bfsInv_fresh:
  assumes inv: "bfsInv c b st start goal L visited queue head" and h: "head < length queue"
    and n: "n \<notin> visited" and w: "walk c b st m start n"
  shows "L ! head + 1 \<le> m"
proof (rule ccontr)
  assume "\<not> L ! head + 1 \<le> m"
  then have le: "m \<le> L ! head" by simp
  from bfsInvD(6)[OF inv] have "start \<in> visited" by simp
  with n have "n \<noteq> start" by blast
  with w obtain m' where m': "m = Suc m'" by (cases m) auto
  from walk_last[OF w[unfolded m']] obtain v d where vd: "walk c b st m' start v"
    "d \<in> set directions" "n = getNextPosition c v d" "openCell b st n" by blast
  from le m' have "m' < L ! head" by simp
  from bfsInv_below[OF inv h this vd(1,2)] vd(3,4) n show False by blast
qed

lemma labelsSortedD:
  assumes "labelsSorted L queue" and "i \<le> j" and "j < length queue" and "L ! i = L ! j"
  shows "rank (snd (queue ! i)) \<le> rank (snd (queue ! j))"
  using assms unfolding labelsSorted_def by blast

lemma nextLevelBoundD:
  assumes "nextLevelBound L queue head" and "i < length queue" and "L ! i = L ! head + 1"
  shows "rank (snd (queue ! i)) \<le> rank (snd (queue ! head))"
  using assms unfolding nextLevelBound_def by blast

text \<open>No earlier direction starts a walk of the head's level to a cell next to an unvisited one.\<close>

lemma bfsInv_fresh_label:
  assumes inv: "bfsInv c b st start goal L visited queue head" and h: "head < length queue"
    and n: "n \<notin> visited" and d: "d \<in> set directions" and r: "rank d < rank (snd (queue ! head))"
    and o: "openCell b st (getNextPosition c start d)"
    and w: "walk c b st (L ! head) (getNextPosition c start d) n"
  shows False
proof -
  note D = bfsInvD[OF inv]
  have len: "length L = length queue" by (rule D(1))
  from D(3)[OF h] have l1: "1 \<le> L ! head" unfolding entryOk_def by blast
  then obtain l where l: "L ! head = Suc l" by (cases "L ! head") auto
  from walk_last[OF w[unfolded l]] obtain w' e where we: "walk c b st l (getNextPosition c start d) w'"
    "e \<in> set directions" "n = getNextPosition c w' e" "openCell b st n" by blast
  from we(1) d o have sw: "walk c b st (Suc l) start w'" by auto
  from walk_last[OF sw] obtain v e' where ve: "walk c b st l start v" "e' \<in> set directions"
    "w' = getNextPosition c v e'" "openCell b st w'" by blast
  from l have "l < L ! head" by simp
  from bfsInv_below[OF inv h this ve(1,2)] ve(3,4) have wv: "w' \<in> visited" by blast
  have notstart: "w' \<noteq> start"
  proof
    assume "w' = start"
    with closedAtD[OF D(8) we(2)] we(3,4) n show False by blast
  qed
  with wv D(6) have "w' \<in> fst ` set queue" by blast
  then obtain q where "q \<in> set queue" "fst q = w'" by blast
  then have "\<exists>j. j < length queue \<and> fst (queue ! j) = w'"
    unfolding in_set_conv_nth by blast
  then obtain j where j: "j < length queue" "fst (queue ! j) = w'"
    and least: "\<And>k. k < j \<Longrightarrow> \<not> (k < length queue \<and> fst (queue ! k) = w')"
    using exists_least_iff[of "\<lambda>j. j < length queue \<and> fst (queue ! j) = w'"] by blast
  have first: "firstAt queue j" unfolding firstAt_def using least j by auto
  have notbelow: "\<not> j < head"
  proof
    assume "j < head"
    from closedAtD[OF D(9)[OF this] we(2)] j(2) we(3,4) n show False by blast
  qed
  then have hj: "head \<le> j" by simp
  from D(10)[OF j(1)] notstart j(2) sw have "L ! j \<le> Suc l" unfolding minimalAt_def by blast
  moreover from D(4) hj j(1) len have "L ! head \<le> L ! j" by (simp add: sorted_iff_nth_mono)
  ultimately have lev: "L ! j = L ! head" using l by simp
  from labelsSortedD[OF D(12) hj j(1) lev[symmetric]]
  have "rank (snd (queue ! head)) \<le> rank (snd (queue ! j))" .
  with r have rj: "rank d < rank (snd (queue ! j))" by simp
  from D(14)[OF j(1)] first notstart j(2) have "labelMin c b st start (L ! j) (queue ! j)"
    unfolding labelOk_def by blast
  with d rj o have "\<not> walk c b st (L ! j - 1) (getNextPosition c start d) (fst (queue ! j))"
    unfolding labelMin_def by blast
  with we(1) j(2) lev l show False by simp
qed

lemma bfsInv_push:
  assumes inv: "bfsInv c b st start goal L visited queue head" and h: "head < length queue"
    and d: "d \<in> set directions" and n: "n = getNextPosition c (fst (queue ! head)) d"
    and nv: "n \<notin> visited" and o: "openCell b st n" and ng: "n \<noteq> goal"
  shows "bfsInv c b st start goal (L @ [L ! head + 1]) (insert n visited)
           (queue @ [(n, snd (queue ! head))]) head"
proof -
  note D = bfsInvD[OF inv]
  let ?L = "L @ [L ! head + 1]" and ?q = "queue @ [(n, snd (queue ! head))]"
  have len: "length L = length queue" by (rule D(1))
  have hL: "?L ! head = L ! head" using h len by (simp add: nth_append)
  have old: "?q ! i = queue ! i \<and> ?L ! i = L ! i" if "i < length queue" for i
    using len that by (simp add: nth_append)
  have new: "?q ! length queue = (n, snd (queue ! head)) \<and> ?L ! length queue = L ! head + 1"
    using len by (simp add: nth_append)
  have split: "i < length queue \<or> i = length queue" if "i < length ?q" for i
    using that by auto
  from D(3)[OF h] have eh: "1 \<le> L ! head" "snd (queue ! head) \<in> set directions"
    "openCell b st (getNextPosition c start (snd (queue ! head)))"
    "walk c b st (L ! head - 1) (getNextPosition c start (snd (queue ! head))) (fst (queue ! head))"
    unfolding entryOk_def by blast+
  have wn: "walk c b st (L ! head) (getNextPosition c start (snd (queue ! head))) n"
  proof -
    from eh(1) have "Suc (L ! head - 1) = L ! head" by simp
    with walk_snoc[OF eh(4) d o[unfolded n]] n show ?thesis by simp
  qed
  have enew: "entryOk c b st start (L ! head + 1) (n, snd (queue ! head))"
    unfolding entryOk_def using eh(2,3) wn by simp
  have mnew: "minimalAt c b st start (L ! head + 1) n"
    unfolding minimalAt_def using bfsInv_fresh[OF inv h nv] by blast
  show ?thesis
  proof (unfold bfsInv_def, intro conjI allI impI)
    show "length ?L = length ?q" using len by simp
    show "head \<le> length ?q" using h by simp
    show "entryOk c b st start (?L ! i) (?q ! i)" if "i < length ?q" for i
      using split[OF that] old[of i] new D(3)[of i] enew by auto
    show "sorted ?L"
    proof -
      have "\<forall>l \<in> set L. l \<le> L ! head + 1"
        using D(5)[OF h] len by (auto simp: in_set_conv_nth)
      with D(4) show ?thesis by (simp add: sorted_append)
    qed
    show "?L ! i \<le> ?L ! head + 1" if "i < length ?q" "head < length ?q" for i
      using split[OF that(1)] old[of i] new hL D(5)[OF h, of i] by auto
    show "insert n visited = insert start (fst ` set ?q)" using D(6) by auto
    show "goal \<notin> insert n visited" using D(7) ng by simp
    show "closedAt c b st (insert n visited) start"
      by (rule closedAt_mono[OF D(8)]) auto
    show "closedAt c b st (insert n visited) (fst (?q ! i))" if "i < head" for i
    proof -
      from that h have "i < length queue" by simp
      from old[OF this] closedAt_mono[OF D(9)[OF that], of "insert n visited"]
      show ?thesis by auto
    qed
    show "minimalAt c b st start (?L ! i) (fst (?q ! i))" if "i < length ?q" for i
      using split[OF that] old[of i] new D(10)[of i] mnew by auto
    show "levelComplete c b st start ?L ?q head"
    proof -
      have "fst (?q ! i) = fst (queue ! i)" if "i < head" for i
        using that h old[of i] by simp
      with D(11)[OF h] hL show ?thesis unfolding levelComplete_def by metis
    qed
    show "labelsSorted ?L ?q" unfolding labelsSorted_def
    proof (intro allI impI)
      fix i j
      assume a: "i \<le> j \<and> j < length ?q \<and> ?L ! i = ?L ! j"
      then have ij: "i \<le> j" and j: "j < length ?q" and e: "?L ! i = ?L ! j" by blast+
      show "rank (snd (?q ! i)) \<le> rank (snd (?q ! j))"
      proof (cases "j < length queue")
        case True
        with ij have i: "i < length queue" by simp
        from e old[OF i] old[OF True] have "L ! i = L ! j" by simp
        from labelsSortedD[OF D(12) ij True this] old[OF i] old[OF True]
        show ?thesis by simp
      next
        case False
        with split[OF j] have jn: "j = length queue" by simp
        show ?thesis
        proof (cases "i = j")
          case True
          then show ?thesis by simp
        next
          case False
          with ij jn have i: "i < length queue" by simp
          from e old[OF i] new jn have "L ! i = L ! head + 1" by simp
          from nextLevelBoundD[OF D(13)[OF h] i this] old[OF i] new jn
          show ?thesis by simp
        qed
      qed
    qed
    show "nextLevelBound ?L ?q head" unfolding nextLevelBound_def
    proof (intro allI impI)
      fix i
      assume i: "i < length ?q" and e: "?L ! i = ?L ! head + 1"
      show "rank (snd (?q ! i)) \<le> rank (snd (?q ! head))"
      proof (cases "i < length queue")
        case True
        from e old[OF True] hL have "L ! i = L ! head + 1" by simp
        from nextLevelBoundD[OF D(13)[OF h] True this] old[OF True] old[OF h]
        show ?thesis by simp
      next
        case False
        with split[OF i] have "i = length queue" by simp
        with new old[OF h] show ?thesis by simp
      qed
    qed
    show "labelOk c b st start ?L ?q i" if "i < length ?q" for i
    proof (cases "i < length queue")
      case True
      have "fst (?q ! j) = fst (queue ! j)" if "j < i" for j
        using old[of j] that True by simp
      with old[OF True] have f: "firstAt ?q i = firstAt queue i"
        unfolding firstAt_def by simp
      from D(14)[OF True] f old[OF True] show ?thesis unfolding labelOk_def by simp
    next
      case False
      with split[OF that] have i: "i = length queue" by simp
      have "labelMin c b st start (L ! head + 1) (n, snd (queue ! head))"
        unfolding labelMin_def using bfsInv_fresh_label[OF inv h nv] by auto
      with new i show ?thesis unfolding labelOk_def by simp
    qed
  qed
qed

lemma bfsInv_advance:
  assumes inv: "bfsInv c b st start goal L visited queue head" and h: "head < length queue"
    and cl: "closedAt c b st visited (fst (queue ! head))"
  shows "bfsInv c b st start goal L visited queue (Suc head)"
proof -
  note D = bfsInvD[OF inv]
  have len: "length L = length queue" by (rule D(1))
  have mono: "L ! head \<le> L ! Suc head" if "Suc head < length queue"
    using D(4) that len by (simp add: sorted_iff_nth_mono)
  show ?thesis
  proof (unfold bfsInv_def, intro conjI allI impI)
    show "length L = length queue" by (rule D(1))
    show "Suc head \<le> length queue" using h by simp
    show "entryOk c b st start (L ! i) (queue ! i)" if "i < length queue" for i
      by (rule D(3)[OF that])
    show "sorted L" by (rule D(4))
    show "L ! i \<le> L ! Suc head + 1" if "i < length queue" "Suc head < length queue" for i
      using D(5)[OF h that(1)] mono[OF that(2)] by simp
    show "visited = insert start (fst ` set queue)" by (rule D(6))
    show "goal \<notin> visited" by (rule D(7))
    show "closedAt c b st visited start" by (rule D(8))
    show "closedAt c b st visited (fst (queue ! i))" if "i < Suc head" for i
    proof (cases "i = head")
      case True
      with cl show ?thesis by simp
    next
      case False
      with that have "i < head" by simp
      from D(9)[OF this] show ?thesis .
    qed
    show "minimalAt c b st start (L ! i) (fst (queue ! i))" if "i < length queue" for i
      by (rule D(10)[OF that])
    show "levelComplete c b st start L queue (Suc head)" if sh: "Suc head < length queue"
      unfolding levelComplete_def
    proof (intro allI impI)
      fix m w
      assume mw: "m < L ! Suc head \<and> walk c b st m start w"
      then have m: "m < L ! Suc head" and w: "walk c b st m start w" by simp_all
      show "w = start \<or> (\<exists>i < Suc head. w = fst (queue ! i))"
      proof (cases "m < L ! head")
        case True
        with D(11)[OF h] w have "w = start \<or> (\<exists>i < head. w = fst (queue ! i))"
          unfolding levelComplete_def by blast
        then show ?thesis using less_Suc_eq by blast
      next
        case False
        show ?thesis
        proof (cases "w = start")
          case True
          then show ?thesis by simp
        next
          case ws: False
          from False m D(5)[OF h sh] have meq: "m = L ! head" by simp
          from ws w obtain m' where m': "m = Suc m'" by (cases m) auto
          from walk_last[OF w[unfolded m']] obtain v e where ve: "walk c b st m' start v"
            "e \<in> set directions" "w = getNextPosition c v e" "openCell b st w" by blast
          from meq m' have "m' < L ! head" by simp
          from bfsInv_below[OF inv h this ve(1,2)] ve(3,4) have "w \<in> visited" by blast
          with ws D(6) obtain j where j: "j < length queue" "w = fst (queue ! j)"
            by (auto simp: in_set_conv_nth)
          from D(10)[OF j(1)] ws j(2) w have "L ! j \<le> m" unfolding minimalAt_def by blast
          with m have lt: "L ! j < L ! Suc head" by simp
          have "j < Suc head"
          proof (rule ccontr)
            assume "\<not> j < Suc head"
            then have "Suc head \<le> j" by simp
            with D(4) j(1) len have "L ! Suc head \<le> L ! j" by (simp add: sorted_iff_nth_mono)
            with lt show False by simp
          qed
          with j(2) show ?thesis by blast
        qed
      qed
    qed
    show "labelsSorted L queue" by (rule D(12))
    show "nextLevelBound L queue (Suc head)" if sh: "Suc head < length queue"
      unfolding nextLevelBound_def
    proof (intro allI impI)
      fix i
      assume i: "i < length queue" and e: "L ! i = L ! Suc head + 1"
      from D(5)[OF h i] e mono[OF sh] have eq: "L ! Suc head = L ! head" by simp
      with e have "L ! i = L ! head + 1" by simp
      from nextLevelBoundD[OF D(13)[OF h] i this]
      have "rank (snd (queue ! i)) \<le> rank (snd (queue ! head))" .
      moreover have "head \<le> Suc head" by simp
      from labelsSortedD[OF D(12) this sh eq[symmetric]]
      have "rank (snd (queue ! head)) \<le> rank (snd (queue ! Suc head))" .
      ultimately show "rank (snd (queue ! i)) \<le> rank (snd (queue ! Suc head))" by simp
    qed
    show "labelOk c b st start L queue i" if "i < length queue" for i
      by (rule D(14)[OF that])
  qed
qed

lemma bfsInv_found:
  assumes inv: "bfsInv c b st start goal L visited queue head" and h: "head < length queue"
    and d: "d \<in> set directions" and g: "getNextPosition c (fst (queue ! head)) d = goal"
    and o: "openCell b st goal"
  shows "goodStep c b st start goal (snd (queue ! head))"
proof -
  note D = bfsInvD[OF inv]
  from D(3)[OF h] have eh: "1 \<le> L ! head" "snd (queue ! head) \<in> set directions"
    "openCell b st (getNextPosition c start (snd (queue ! head)))"
    "walk c b st (L ! head - 1) (getNextPosition c start (snd (queue ! head))) (fst (queue ! head))"
    unfolding entryOk_def by blast+
  from eh(1) have "Suc (L ! head - 1) = L ! head" by simp
  with walk_snoc[OF eh(4) d] o g
  have w: "walk c b st (L ! head) (getNextPosition c start (snd (queue ! head))) goal" by simp
  have "Suc (L ! head) \<le> m" if "walk c b st m start goal" for m
    using bfsInv_fresh[OF inv h D(7) that] by simp
  moreover have "\<not> (openCell b st (getNextPosition c start e)
      \<and> walk c b st (L ! head) (getNextPosition c start e) goal)"
    if "e \<in> set directions" "rank e < rank (snd (queue ! head))" for e
    using bfsInv_fresh_label[OF inv h D(7) that] by blast
  ultimately show ?thesis unfolding goodStep_def using w eh(2,3) by blast
qed

lemma bfsInv_exit:
  assumes inv: "bfsInv c b st start goal L visited queue (length queue)"
  shows "\<not> walk c b st m start goal"
proof
  note D = bfsInvD[OF inv]
  assume w: "walk c b st m start goal"
  have closed: "getNextPosition c p d \<in> visited"
    if "p \<in> visited" "d \<in> set directions" "openCell b st (getNextPosition c p d)" for p d
  proof (cases "p = start")
    case True
    with closedAtD[OF D(8) that(2)] that(3) show ?thesis by simp
  next
    case False
    with that(1) D(6) obtain i where "i < length queue" "p = fst (queue ! i)"
      by (auto simp: in_set_conv_nth)
    with closedAtD[OF D(9)[OF this(1)] that(2)] that(3) show ?thesis by simp
  qed
  have "start \<in> visited" using D(6) by simp
  from closed_walk[of visited b st c, OF closed w this] D(7) show False by simp
qed

lemma findNextMove_expand_skip:
  "getNextPosition c pos d \<in> visited \<or> \<not> openCell b st (getNextPosition c pos d) \<Longrightarrow>
   findNextMove_expand c b e st pos fs (d # ds) visited queue
     = findNextMove_expand c b e st pos fs ds visited queue"
  by (auto simp: findNextMove_expand.simps openCell_def Let_def)

lemma findNextMove_expand_found:
  "getNextPosition c pos d \<notin> visited \<Longrightarrow> openCell b st (getNextPosition c pos d) \<Longrightarrow>
   Some (getNextPosition c pos d) = e \<Longrightarrow>
   findNextMove_expand c b e st pos fs (d # ds) visited queue = Inl fs"
  by (auto simp: findNextMove_expand.simps openCell_def Let_def)

lemma findNextMove_expand_push:
  "getNextPosition c pos d \<notin> visited \<Longrightarrow> openCell b st (getNextPosition c pos d) \<Longrightarrow>
   Some (getNextPosition c pos d) \<noteq> e \<Longrightarrow>
   findNextMove_expand c b e st pos fs (d # ds) visited queue
     = findNextMove_expand c b e st pos fs ds (insert (getNextPosition c pos d) visited)
         (queue @ [(getNextPosition c pos d, fs)])"
  by (auto simp: findNextMove_expand.simps openCell_def Let_def)

lemma getNextPosition_in_range:
  assumes "0 < BOARD_WIDTH c" "0 < BOARD_HEIGHT c"
  shows "\<not> (y (getNextPosition c p d) < 0 \<or> y (getNextPosition c p d) \<ge> BOARD_HEIGHT c
            \<or> x (getNextPosition c p d) < 0 \<or> x (getNextPosition c p d) \<ge> BOARD_WIDTH c)"
  using assms by (auto simp: getNextPosition_def Let_def)

lemma findNextMove_start_skip:
  assumes "0 < BOARD_WIDTH c" "0 < BOARD_HEIGHT c"
  shows "\<not> openCell b st (getNextPosition c start d) \<Longrightarrow>
   findNextMove_start c b start e st (d # ds) visited queue
     = findNextMove_start c b start e st ds visited queue"
  using getNextPosition_in_range[OF assms, of start d]
  by (auto simp: findNextMove_start.simps openCell_def Let_def)

lemma findNextMove_start_found:
  assumes "0 < BOARD_WIDTH c" "0 < BOARD_HEIGHT c"
  shows "openCell b st (getNextPosition c start d) \<Longrightarrow> Some (getNextPosition c start d) = e \<Longrightarrow>
   findNextMove_start c b start e st (d # ds) visited queue = Inl d"
  using getNextPosition_in_range[OF assms, of start d]
  by (auto simp: findNextMove_start.simps openCell_def Let_def)

lemma findNextMove_start_push:
  assumes "0 < BOARD_WIDTH c" "0 < BOARD_HEIGHT c"
  shows "openCell b st (getNextPosition c start d) \<Longrightarrow> Some (getNextPosition c start d) \<noteq> e \<Longrightarrow>
   findNextMove_start c b start e st (d # ds) visited queue
     = findNextMove_start c b start e st ds (insert (getNextPosition c start d) visited)
         (queue @ [(getNextPosition c start d, d)])"
  using getNextPosition_in_range[OF assms, of start d]
  by (auto simp: findNextMove_start.simps openCell_def Let_def)

lemma findNextMove_expand_inv:
  assumes "bfsInv c b st start goal L visited queue head" and "head < length queue"
    and "queue ! head = (pos, fs)" and "set ds \<subseteq> set directions"
    and "\<forall>d \<in> set directions - set ds. openCell b st (getNextPosition c pos d)
           \<longrightarrow> getNextPosition c pos d \<in> visited"
  shows "case findNextMove_expand c b (Some goal) st pos fs ds visited queue of
           Inl r \<Rightarrow> goodStep c b st start goal r
         | Inr (visited', queue') \<Rightarrow> \<exists>L'. bfsInv c b st start goal L' visited' queue' (Suc head)"
  using assms
proof (induction ds arbitrary: L visited queue)
  case Nil
  from Nil.prems(3,5) have "closedAt c b st visited (fst (queue ! head))"
    unfolding closedAt_def by simp
  from bfsInv_advance[OF Nil.prems(1,2) this] show ?case
    by (auto simp: findNextMove_expand.simps)
next
  case (Cons d ds)
  let ?n = "getNextPosition c pos d"
  from Cons.prems(4) have d: "d \<in> set directions" and ds: "set ds \<subseteq> set directions" by simp_all
  consider (skip) "?n \<in> visited \<or> \<not> openCell b st ?n"
    | (found) "?n \<notin> visited" "openCell b st ?n" "?n = goal"
    | (push) "?n \<notin> visited" "openCell b st ?n" "?n \<noteq> goal"
    by blast
  then show ?case
  proof cases
    case skip
    have "\<forall>e \<in> set directions - set ds. openCell b st (getNextPosition c pos e)
           \<longrightarrow> getNextPosition c pos e \<in> visited"
      using Cons.prems(5) skip by auto
    from Cons.IH[OF Cons.prems(1,2,3) ds this] findNextMove_expand_skip[OF skip]
    show ?thesis by simp
  next
    case found
    from bfsInv_found[OF Cons.prems(1,2) d] Cons.prems(3) found
    have "goodStep c b st start goal fs" by simp
    with findNextMove_expand_found[OF found(1,2), of "Some goal"] found(3)
    show ?thesis by simp
  next
    case push
    let ?q = "queue @ [(?n, fs)]"
    from bfsInv_push[OF Cons.prems(1,2) d _ push(1,2,3)] Cons.prems(3)
    have inv: "bfsInv c b st start goal (L @ [L ! head + 1]) (insert ?n visited) ?q head"
      by simp
    have h: "head < length ?q" using Cons.prems(2) by simp
    have qh: "?q ! head = (pos, fs)" using Cons.prems(2,3) by (simp add: nth_append)
    have cl: "\<forall>e \<in> set directions - set ds. openCell b st (getNextPosition c pos e)
           \<longrightarrow> getNextPosition c pos e \<in> insert ?n visited"
      using Cons.prems(5) by auto
    from push(3) have "Some ?n \<noteq> Some goal" by simp
    from Cons.IH[OF inv h qh ds cl] findNextMove_expand_push[OF push(1,2) this]
    show ?thesis by simp
  qed
qed

lemma findNextMove_loop_inv:
  "bfsInv c b st start goal L visited queue head \<Longrightarrow>
   (case findNextMove_loop c b (Some goal) st visited queue head of
      Some r \<Rightarrow> goodStep c b st start goal r
    | None \<Rightarrow> \<forall>m. \<not> walk c b st m start goal)"
proof (induction c b "Some goal" st visited queue head arbitrary: L
        rule: findNextMove_loop.induct)
  case (1 c board ghostState visited queue head)
  show ?case
  proof (cases "head < length queue")
    case False
    with bfsInvD(2)[OF "1.prems"] have "head = length queue" by simp
    with bfsInv_exit "1.prems" have "\<forall>m. \<not> walk c board ghostState m start goal" by blast
    with False show ?thesis by (subst findNextMove_loop.simps) simp
  next
    case True
    obtain pos fs where pf: "queue ! head = (pos, fs)" by (cases "queue ! head")
    have ex: "case findNextMove_expand c board (Some goal) ghostState pos fs [UP, DOWN, LEFT, RIGHT]
                  visited queue of
           Inl r \<Rightarrow> goodStep c board ghostState start goal r
         | Inr (visited', queue') \<Rightarrow>
             \<exists>L'. bfsInv c board ghostState start goal L' visited' queue' (Suc head)"
      using findNextMove_expand_inv[OF "1.prems" True pf, of "[UP, DOWN, LEFT, RIGHT]"]
      by (simp add: directions_def)
    show ?thesis
    proof (cases "findNextMove_expand c board (Some goal) ghostState pos fs
                    [UP, DOWN, LEFT, RIGHT] visited queue")
      case (Inl r)
      with ex True pf show ?thesis by (subst findNextMove_loop.simps) simp
    next
      case (Inr vq)
      obtain v q where vq: "vq = (v, q)" by (cases vq)
      from ex Inr vq obtain L' where L': "bfsInv c board ghostState start goal L' v q (Suc head)"
        by auto
      from Inr pf have e: "findNextMove_expand c board (Some goal) ghostState (fst (queue ! head))
          (snd (queue ! head)) [UP, DOWN, LEFT, RIGHT] visited queue = Inr vq" by simp
      from "1.hyps"[OF True e vq[symmetric]] L'
      have "case findNextMove_loop c board (Some goal) ghostState v q (head + 1) of
              Some r \<Rightarrow> goodStep c board ghostState start goal r
            | None \<Rightarrow> \<forall>m. \<not> walk c board ghostState m start goal" by simp
      with True e vq show ?thesis by (subst findNextMove_loop.simps) simp
    qed
  qed
qed

lemma findNextMove_start_inv:
  assumes "0 < BOARD_WIDTH c" "0 < BOARD_HEIGHT c" and sg: "start \<noteq> goal"
  shows "startInv c b st start goal visited queue \<Longrightarrow> set ds \<subseteq> set directions \<Longrightarrow>
    sorted_wrt (\<lambda>d e. rank d < rank e) ds \<Longrightarrow>
    \<forall>e \<in> set queue. \<forall>d \<in> set ds. rank (snd e) < rank d \<Longrightarrow>
    ringComplete c b st start ds queue \<Longrightarrow>
    (case findNextMove_start c b start (Some goal) st ds visited queue of
       Inl r \<Rightarrow> goodStep c b st start goal r
     | Inr (visited', queue') \<Rightarrow>
         startInv c b st start goal visited' queue' \<and> ringComplete c b st start [] queue')"
proof (induction ds arbitrary: visited queue)
  case Nil
  then show ?case by (simp add: findNextMove_start.simps)
next
  case (Cons d ds)
  let ?n = "getNextPosition c start d"
  from Cons.prems(2) have d: "d \<in> set directions" and ds: "set ds \<subseteq> set directions" by simp_all
  from Cons.prems(3) have later: "\<And>e. e \<in> set ds \<Longrightarrow> rank d < rank e"
    and sds: "sorted_wrt (\<lambda>d e. rank d < rank e) ds" by simp_all
  from Cons.prems(4) have before: "\<And>e. e \<in> set queue \<Longrightarrow> rank (snd e) < rank d"
    and before': "\<forall>e \<in> set queue. \<forall>d \<in> set ds. rank (snd e) < rank d" by simp_all
  from Cons.prems(5) have proc: "\<And>e. e \<in> set directions \<Longrightarrow> e \<noteq> d \<Longrightarrow> e \<notin> set ds \<Longrightarrow>
      openCell b st (getNextPosition c start e) \<Longrightarrow> (getNextPosition c start e, e) \<in> set queue"
    unfolding ringComplete_def by simp
  from Cons.prems(1) have ent: "\<And>e. e \<in> set queue \<Longrightarrow> snd e \<in> set directions
      \<and> fst e = getNextPosition c start (snd e) \<and> openCell b st (fst e)"
    and vis: "visited = insert start (fst ` set queue)" and g: "goal \<notin> visited"
    and srt: "sorted (map (\<lambda>e. rank (snd e)) queue)"
    unfolding startInv_def by blast+
  consider (skip) "\<not> openCell b st ?n"
    | (found) "openCell b st ?n" "?n = goal"
    | (push) "openCell b st ?n" "?n \<noteq> goal"
    by blast
  then show ?case
  proof cases
    case skip
    have "ringComplete c b st start ds queue"
      unfolding ringComplete_def using proc skip by blast
    from Cons.IH[OF Cons.prems(1) ds sds before' this] findNextMove_start_skip[OF assms(1,2) skip]
    show ?thesis by simp
  next
    case found
    have "walk c b st 0 ?n goal" using found(2) by simp
    moreover have "Suc 0 \<le> m" if "walk c b st m start goal" for m
      using that sg by (cases m) auto
    moreover have "\<not> (openCell b st (getNextPosition c start e)
        \<and> walk c b st 0 (getNextPosition c start e) goal)"
      if e: "e \<in> set directions" "rank e < rank d" for e
    proof
      assume a: "openCell b st (getNextPosition c start e)
        \<and> walk c b st 0 (getNextPosition c start e) goal"
      from e(2) later[of e] have "e \<noteq> d" "e \<notin> set ds" by auto
      from proc[OF e(1) this] a have "(goal, e) \<in> set queue" by simp
      then have "goal \<in> fst ` set queue" by force
      with vis g show False by simp
    qed
    ultimately have "goodStep c b st start goal d"
      unfolding goodStep_def using d found(1) by blast
    with findNextMove_start_found[OF assms(1,2) found(1), of "Some goal"] found(2)
    show ?thesis by simp
  next
    case push
    have inv: "startInv c b st start goal (insert ?n visited) (queue @ [(?n, d)])"
      unfolding startInv_def
    proof (intro conjI ballI)
      fix e
      assume "e \<in> set (queue @ [(?n, d)])"
      then have ee: "e \<in> set queue \<or> e = (?n, d)" by auto
      show "snd e \<in> set directions" using ee ent[of e] d by auto
      show "fst e = getNextPosition c start (snd e)" using ee ent[of e] by auto
      show "openCell b st (fst e)" using ee ent[of e] push(1) by auto
    next
      show "insert ?n visited = insert start (fst ` set (queue @ [(?n, d)]))"
        unfolding vis by auto
      show "goal \<notin> insert ?n visited" using g push(2) by simp
      have "rank (snd e) \<le> rank d" if "e \<in> set queue" for e
        using before[OF that] by simp
      with srt show "sorted (map (\<lambda>e. rank (snd e)) (queue @ [(?n, d)]))"
        by (simp add: sorted_append)
    qed
    have bf: "\<forall>e \<in> set (queue @ [(?n, d)]). \<forall>d \<in> set ds. rank (snd e) < rank d"
      using before' later by auto
    have rc: "ringComplete c b st start ds (queue @ [(?n, d)])"
      unfolding ringComplete_def
    proof (intro ballI impI)
      fix e
      assume e: "e \<in> set directions - set ds" and o: "openCell b st (getNextPosition c start e)"
      show "(getNextPosition c start e, e) \<in> set (queue @ [(?n, d)])"
      proof (cases "e = d")
        case True
        then show ?thesis by simp
      next
        case False
        from proc[OF _ False _ o] e show ?thesis by simp
      qed
    qed
    from push(2) have "Some ?n \<noteq> Some goal" by simp
    from Cons.IH[OF inv ds sds bf rc] findNextMove_start_push[OF assms(1,2) push(1) this]
    show ?thesis by simp
  qed
qed

lemma startInv_bfsInv:
  assumes si: "startInv c b st start goal visited queue"
    and rc: "ringComplete c b st start [] queue"
  shows "bfsInv c b st start goal (replicate (length queue) 1) visited queue 0"
proof (unfold bfsInv_def, intro conjI allI impI)
  let ?L = "replicate (length queue) (1::nat)"
  from si have ent: "\<And>e. e \<in> set queue \<Longrightarrow> snd e \<in> set directions
      \<and> fst e = getNextPosition c start (snd e) \<and> openCell b st (fst e)"
    and vis: "visited = insert start (fst ` set queue)" and g: "goal \<notin> visited"
    and srt: "sorted (map (\<lambda>e. rank (snd e)) queue)"
    unfolding startInv_def by blast+
  from rc have all: "\<And>d. d \<in> set directions \<Longrightarrow> openCell b st (getNextPosition c start d)
      \<Longrightarrow> (getNextPosition c start d, d) \<in> set queue"
    unfolding ringComplete_def by simp
  have mono: "rank (snd (queue ! i)) \<le> rank (snd (queue ! j))" if "i \<le> j" "j < length queue" for i j
    using sorted_nth_mono[OF srt, of i j] that by simp
  show "length ?L = length queue" by simp
  show "0 \<le> length queue" by simp
  show "entryOk c b st start (?L ! i) (queue ! i)" if "i < length queue" for i
  proof -
    from ent[OF nth_mem[OF that]]
    have "snd (queue ! i) \<in> set directions" "fst (queue ! i) = getNextPosition c start (snd (queue ! i))"
      "openCell b st (fst (queue ! i))" by blast+
    moreover from this(2,3) have "openCell b st (getNextPosition c start (snd (queue ! i)))"
      by (simp only:)
    moreover from calculation(2) have "walk c b st 0 (getNextPosition c start (snd (queue ! i))) (fst (queue ! i))"
      by simp
    ultimately show ?thesis using that unfolding entryOk_def by simp
  qed
  show "sorted ?L" by simp
  show "?L ! i \<le> ?L ! 0 + 1" if "i < length queue" for i using that by simp
  show "visited = insert start (fst ` set queue)" by (rule vis)
  show "goal \<notin> visited" by (rule g)
  show "closedAt c b st visited start"
    unfolding closedAt_def
  proof (intro ballI impI)
    fix d
    assume "d \<in> set directions" "openCell b st (getNextPosition c start d)"
    from all[OF this] have "getNextPosition c start d \<in> fst ` set queue" by force
    with vis show "getNextPosition c start d \<in> visited" by simp
  qed
  show "closedAt c b st visited (fst (queue ! i))" if "i < 0" for i using that by simp
  show "minimalAt c b st start (?L ! i) (fst (queue ! i))" if "i < length queue" for i
    unfolding minimalAt_def
  proof (intro impI allI)
    fix m
    assume "fst (queue ! i) \<noteq> start" "walk c b st m start (fst (queue ! i))"
    then have "m \<noteq> 0" by (cases m) auto
    with that show "?L ! i \<le> m" by simp
  qed
  show "levelComplete c b st start ?L queue 0" if "0 < length queue"
    unfolding levelComplete_def using that by auto
  show "labelsSorted ?L queue" unfolding labelsSorted_def using mono by blast
  show "nextLevelBound ?L queue 0" if "0 < length queue"
    unfolding nextLevelBound_def using that by simp
  show "labelOk c b st start ?L queue i" if i: "i < length queue" for i
    unfolding labelOk_def labelMin_def
  proof (intro impI ballI notI)
    fix d
    assume f: "firstAt queue i \<and> fst (queue ! i) \<noteq> start" and d: "d \<in> set directions"
      and r: "rank d < rank (snd (queue ! i))"
      and a: "openCell b st (getNextPosition c start d)
        \<and> walk c b st (?L ! i - 1) (getNextPosition c start d) (fst (queue ! i))"
    from a i have eq: "getNextPosition c start d = fst (queue ! i)" by simp
    from all[OF d] a have "(getNextPosition c start d, d) \<in> set queue" by blast
    then obtain j where j: "j < length queue" "queue ! j = (getNextPosition c start d, d)"
      unfolding in_set_conv_nth by blast
    have "j < i"
    proof (rule ccontr)
      assume "\<not> j < i"
      then have "i \<le> j" by simp
      from mono[OF this j(1)] j(2) r show False by simp
    qed
    with f j(2) eq show False unfolding firstAt_def by auto
  qed
qed

subsection \<open>Collisions, pellets and the sibling revision\<close>

lemma eatAll_Nil: "map (eatAll []) gs = gs"
  by (induction gs) (auto simp: eatAll_def)

lemma eatAll_Cons:
  "eatAll es \<circ> (\<lambda>h. if gid h = gid e then h\<lparr>gstate := eaten\<rparr> else h) = eatAll (e # es)"
  by (rule ext) (auto simp: eatAll_def)

lemma ghostLoop_Cons:
  "ghostLoop pp (g # rest) s =
    (if onCell pp g then
       (if gstate g = frightened then
          ghostLoop pp rest
            (s\<lparr>score := score s + 200,
               ghosts := map (\<lambda>h. if gid h = gid g then h\<lparr>gstate := eaten\<rparr> else h) (ghosts s)\<rparr>)
        else if gstate g = normal then (True, s)
        else ghostLoop pp rest s)
     else ghostLoop pp rest s)"
  by (simp add: onCell_def)

lemma ghostLoop_eq:
  "ghostLoop pp gs s =
    (list_ex (fatalGhost pp) gs,
     s\<lparr>score := score s + 200 * int (length (scoredGhosts pp gs)),
       ghosts := map (eatAll (scoredGhosts pp gs)) (ghosts s)\<rparr>)"
proof (induction gs arbitrary: s)
  case Nil
  then show ?case by (simp add: scoredGhosts_def eatAll_Nil)
next
  case (Cons g gs)
  show ?case
  proof (cases "onCell pp g")
    case False
    then show ?thesis using Cons.IH[of s]
      by (simp add: fatalGhost_def scoredGhosts_def ghostLoop_Cons del: ghostLoop.simps)
  next
    case True
    then show ?thesis
      using Cons.IH[of s]
        Cons.IH[of "s\<lparr>score := score s + 200,
               ghosts := map (\<lambda>h. if gid h = gid g then h\<lparr>gstate := eaten\<rparr> else h) (ghosts s)\<rparr>"]
      by (cases "gstate g")
         (simp_all add: fatalGhost_def scoredGhosts_def ghostLoop_Cons eatAll_Cons eatAll_Nil
            add.assoc del: ghostLoop.simps)
  qed
qed

lemma handleCollisions_eq:
  "handleCollisions c r s =
    (let pp = position (pacman r);
         s1 = s\<lparr>score := score s + 200 * int (length (scoredGhosts pp (ghosts r))),
                ghosts := map (eatAll (scoredGhosts pp (ghosts r))) (ghosts s)\<rparr>
     in if list_ex (fatalGhost pp) (ghosts r) then s1\<lparr>lives := lives s - 1, gameState := PAUSED\<rparr>
        else if cellAt (board r) pp = Some PELLET then
          s1\<lparr>score := score s1 + 10, eatenPellets := eatenPellets s + 1,
             board := setCell (board r) pp EMPTY\<rparr>
        else if cellAt (board r) pp = Some POWER_PELLET then
          s1\<lparr>score := score s1 + 50, frightenedTicks := FRIGHTENED_DURATION c,
             ghosts := map frighten (ghosts s1), eatenPellets := eatenPellets s + 1,
             board := setCell (board r) pp EMPTY\<rparr>
        else s1)"
  by (simp add: handleCollisions_def ghostLoop_eq Let_def)

lemma filter_pellets_update:
  "j < length row \<Longrightarrow> isPelletCell (row ! j) \<Longrightarrow>
   Suc (length (filter isPelletCell (row[j := EMPTY]))) = length (filter isPelletCell row)"
proof (induction row arbitrary: j)
  case Nil
  then show ?case by simp
next
  case (Cons a row)
  then show ?case by (cases j) (auto simp: isPelletCell_def)
qed

lemma cellAt_Some:
  "cellAt b p = Some v \<Longrightarrow>
   0 \<le> y p \<and> nat (y p) < length b \<and> 0 \<le> x p \<and> nat (x p) < length (b ! nat (y p))
   \<and> b ! nat (y p) ! nat (x p) = v"
  by (auto simp: cellAt_def Let_def split: if_splits)

lemma remainingPellets_setCell:
  assumes "cellAt b p = Some v" "isPelletCell v"
  shows "Suc (remainingPellets (setCell b p EMPTY)) = remainingPellets b"
proof -
  let ?f = "\<lambda>row. length (filter isPelletCell row)"
  let ?i = "nat (y p)" and ?j = "nat (x p)"
  from cellAt_Some[OF assms(1)] assms(2)
  have i: "?i < length b" and j: "?j < length (b ! ?i)" and v: "isPelletCell (b ! ?i ! ?j)"
    by auto
  have row: "Suc (?f ((b ! ?i)[?j := EMPTY])) = ?f (b ! ?i)"
    using filter_pellets_update[OF j v] .
  have "map ?f (setCell b p EMPTY) = (map ?f b)[?i := ?f ((b ! ?i)[?j := EMPTY])]"
    by (simp add: setCell_def map_update)
  then have "remainingPellets (setCell b p EMPTY)
      = sum_list (map ?f b) + ?f ((b ! ?i)[?j := EMPTY]) - (map ?f b) ! ?i"
    using i by (simp add: remainingPellets_def sum_list_update)
  moreover have "(map ?f b) ! ?i = ?f (b ! ?i)" using i by simp
  moreover have "?f (b ! ?i) \<le> sum_list (map ?f b)"
    using i elem_le_sum_list[of ?i "map ?f b"] by simp
  ultimately show ?thesis using row unfolding remainingPellets_def by linarith
qed

lemma cellAt_setCell_same: "cellAt b p = Some v \<Longrightarrow> cellAt (setCell b p w) p = Some w"
  by (auto simp: cellAt_def setCell_def Let_def split: if_splits)

lemma cellAt_setCell_other:
  assumes "cellAt b p = Some v" "q \<noteq> p"
  shows "cellAt (setCell b p w) q = cellAt b q"
proof -
  from cellAt_Some[OF assms(1)]
  have py: "0 \<le> y p" and px: "0 \<le> x p" and i: "nat (y p) < length b" by auto
  have diff: "x q \<noteq> x p \<or> y q \<noteq> y p" using assms(2) by (metis Position.equality old.unit.exhaust)
  show ?thesis
  proof (cases "0 \<le> y q \<and> y q < int (length b)")
    case False
    then show ?thesis by (auto simp: cellAt_def setCell_def)
  next
    case inb: True
    show ?thesis
    proof (cases "y q = y p")
      case False
      then have "nat (y q) \<noteq> nat (y p)" using py inb by linarith
      then have "setCell b p w ! nat (y q) = b ! nat (y q)" by (simp add: setCell_def)
      then show ?thesis by (simp add: cellAt_def setCell_def)
    next
      case True
      then have xq: "x q \<noteq> x p" using diff by simp
      have row: "setCell b p w ! nat (y q) = (b ! nat (y p))[nat (x p) := w]"
        using True i by (simp add: setCell_def)
      show ?thesis
      proof (cases "0 \<le> x q")
        case False
        then show ?thesis by (auto simp: cellAt_def setCell_def Let_def)
      next
        case xnn: True
        then have "nat (x q) \<noteq> nat (x p)" using xq px by linarith
        then show ?thesis using True row by (simp add: cellAt_def Let_def setCell_def)
      qed
    qed
  qed
qed

lemma safeGhostStep_Some:
  "safeGhostStep c pos d b st = Some step \<Longrightarrow> snd step = d \<and> d \<noteq> NONE"
  by (auto simp: safeGhostStep_def Let_def split: if_splits)

lemma tryGhostMoves_Some:
  "tryGhostMoves c pos ds b st = Some step \<Longrightarrow> snd step \<in> set ds \<and> snd step \<noteq> NONE"
  by (induction ds) (auto split: option.splits dest: safeGhostStep_Some)

lemma tryGhostMoves_None:
  "tryGhostMoves c pos ds b st = None \<Longrightarrow> d \<in> set ds \<Longrightarrow> safeGhostStep c pos d b st = None"
  by (induction ds) (auto split: option.splits)

lemma isBlockedForGhost_home_rule:
  "(st \<noteq> eaten
      \<and> (cellAt b nextPos = Some GHOST_HOME \<or> cellAt b nextPos = Some GHOST_HOME_DOOR)
      \<and> cellAt b currentPos \<noteq> Some GHOST_HOME \<and> cellAt b currentPos \<noteq> Some GHOST_HOME_DOOR
      \<longrightarrow> isBlockedForGhost currentPos nextPos b st)
   \<and> (cellAt b nextPos = Some GHOST_HOME \<or> cellAt b nextPos = Some GHOST_HOME_DOOR
      \<longrightarrow> \<not> isBlockedForGhost currentPos nextPos b eaten)"
  by (auto simp: isBlockedForGhost_def Let_def)

lemma moveNormalGhost_no_reversal:
  assumes "\<exists>d \<in> {UP, DOWN, LEFT, RIGHT}. d \<noteq> oppositeDirection (gdirection ghost)
             \<and> \<not> isBlockedForGhost (gposition ghost) (getNextPosition c (gposition ghost) d) b (gstate ghost)"
  shows "gdirection (moveNormalGhost c b ghost bestDir) \<noteq> oppositeDirection (gdirection ghost)"
proof -
  let ?opp = "oppositeDirection (gdirection ghost)"
  let ?cands = "filter (\<lambda>d. d \<noteq> ?opp) [UP, DOWN, LEFT, RIGHT]"
  let ?order = "gdirection ghost # filter (\<lambda>d. d \<noteq> gdirection ghost) ?cands"
  from assms obtain d0 where d0': "d0 \<in> {UP, DOWN, LEFT, RIGHT}" "d0 \<noteq> ?opp"
    "\<not> isBlockedForGhost (gposition ghost) (getNextPosition c (gposition ghost) d0) b (gstate ghost)"
    by blast
  then have "d0 \<noteq> NONE" by auto
  with d0' have d0: "d0 \<in> {UP, DOWN, LEFT, RIGHT}" "d0 \<noteq> ?opp"
    "safeGhostStep c (gposition ghost) d0 b (gstate ghost) \<noteq> None"
    by (simp_all add: safeGhostStep_def Let_def)
  then have d0in: "d0 \<in> set ?order" by auto
  have order: "\<And>d. d \<in> set ?order \<Longrightarrow> d \<noteq> NONE \<Longrightarrow> d \<noteq> ?opp"
    by (cases "gdirection ghost") auto
  have tried: "tryGhostMoves c (gposition ghost) ?order b (gstate ghost) \<noteq> None"
    using tryGhostMoves_None[of c "gposition ghost" ?order b "gstate ghost" d0] d0in d0(3) by blast
  show ?thesis
  proof (cases "case bestDir of None \<Rightarrow> None
                  | Some d \<Rightarrow> if d \<noteq> UP \<and> d \<in> set ?cands
                              then safeGhostStep c (gposition ghost) d b (gstate ghost) else None")
    case (Some step)
    then obtain d where bd: "bestDir = Some d" and dc: "d \<in> set ?cands"
      and ss: "safeGhostStep c (gposition ghost) d b (gstate ghost) = Some step"
      by (auto split: option.splits if_splits)
    from safeGhostStep_Some[OF ss] have "snd step = d" by simp
    moreover from dc have "d \<noteq> ?opp" unfolding set_filter by blast
    ultimately have "snd step \<noteq> ?opp" by simp
    then show ?thesis using Some by (simp add: moveNormalGhost_def Let_def del: filter.simps)
  next
    case None
    from tried obtain step where st: "tryGhostMoves c (gposition ghost) ?order b (gstate ghost) = Some step"
      by auto
    from tryGhostMoves_Some[OF st] order have "snd step \<noteq> ?opp" by blast
    then show ?thesis using None st by (simp add: moveNormalGhost_def Let_def del: filter.simps)
  qed
qed

section \<open>Properties\<close>

text \<open>
  C9. Inside the board, one step followed by one step in the opposite direction leads back
  to the starting cell, for each of Up, Down, Left and Right, the wrapping edges included.
\<close>

theorem getNextPosition_round_trip:
  assumes "0 \<le> x pos" "x pos < BOARD_WIDTH c" "0 \<le> y pos" "y pos < BOARD_HEIGHT c"
    and "dir \<in> {UP, DOWN, LEFT, RIGHT}"
  shows "getNextPosition c (getNextPosition c pos dir) (oppositeDirection dir) = pos"
  using assms by (cases dir) (auto simp: getNextPosition_def Let_def)

theorem getNextPosition_round_trip_witness:
  "getNextPosition corridor (getNextPosition corridor \<lparr>x = 0, y = 1\<rparr> LEFT) RIGHT = \<lparr>x = 0, y = 1\<rparr>
   \<and> getNextPosition corridor \<lparr>x = 0, y = 1\<rparr> LEFT = \<lparr>x = 3, y = 1\<rparr>"
  using getNextPosition_round_trip [of "\<lparr>x = 0, y = 1\<rparr>" corridor LEFT]
  by (simp add: corridor_def getNextPosition_def)

text \<open>
  C10. A player that does not stand on a Wall, GhostHome or GhostHomeDoor cell does not
  stand on one after \<open>movePacman\<close>, and \<open>movePacman\<close> leaves the buffered direction
  \<open>nextDirection\<close> as it was.
\<close>

theorem movePacman_walkable_and_buffer:
  "(\<not> isWall (position p) b \<longrightarrow> \<not> isWall (position (movePacman c b p)) b)
   \<and> nextDirection (movePacman c b p) = nextDirection p"
  by (simp add: movePacman_def)

theorem movePacman_walkable_and_buffer_witness:
  "\<not> isWall \<lparr>x = 1, y = 1\<rparr> corridorBoard
   \<and> position (movePacman corridor corridorBoard
        \<lparr>position = \<lparr>x = 1, y = 1\<rparr>, direction = RIGHT, nextDirection = UP, isMouthOpen = True\<rparr>)
      = \<lparr>x = 2, y = 1\<rparr>
   \<and> \<not> isWall \<lparr>x = 2, y = 1\<rparr> corridorBoard
   \<and> nextDirection (movePacman corridor corridorBoard
        \<lparr>position = \<lparr>x = 1, y = 1\<rparr>, direction = RIGHT, nextDirection = UP, isMouthOpen = True\<rparr>)
      = UP"
  using movePacman_walkable_and_buffer
    [of "\<lparr>position = \<lparr>x = 1, y = 1\<rparr>, direction = RIGHT, nextDirection = UP, isMouthOpen = True\<rparr>"
        corridorBoard corridor]
  by (simp add: movePacman_def isWall_def cellAt_def corridorBoard_def corridor_def
        getNextPosition_def)

text \<open>
  C1, at a failing input of App.tsx. In chase mode the ghost with id 1 stands in the
  corridor at \<open>(1,1)\<close> heading Right, the cell to its right is open, and the player is
  on \<open>(0,1)\<close> behind it: \<open>moveGhost\<close> turns the ghost round to Left.
\<close>

theorem moveGhost_reverses:
  "gstate exampleGhost = normal
   \<and> gdirection exampleGhost = RIGHT
   \<and> cellAt corridorBoard (getNextPosition corridor (gposition exampleGhost) RIGHT)
       = Some POWER_PELLET
   \<and> findNextMove corridor corridorBoard (gposition exampleGhost)
        (Some (getChaseTarget exampleGhost examplePacman [exampleGhost])) normal = Some LEFT
   \<and> gdirection (moveGhost corridor corridorBoard examplePacman chase None 0
        [exampleGhost] exampleGhost) = oppositeDirection (gdirection exampleGhost)"
  by code_simp

text \<open>
  C2, at a failing input of App.tsx. The ghost with id 2 is normal and stands on the open
  cell \<open>(1,2)\<close> below the door of the ghost house; the player four cells below heads
  Up, so that the chase target is the door cell \<open>(1,1)\<close>. \<open>findNextMove\<close> answers Up and
  \<open>moveGhost\<close> puts the ghost on the door.
\<close>

theorem moveGhost_enters_door:
  "gstate pinky = normal
   \<and> cellAt homeBoard (gposition pinky) = Some EMPTY
   \<and> getChaseTarget pinky pacmanBelow [pinky] = \<lparr>x = 1, y = 1\<rparr>
   \<and> cellAt homeBoard \<lparr>x = 1, y = 1\<rparr> = Some GHOST_HOME_DOOR
   \<and> findNextMove homeConstants homeBoard (gposition pinky) (Some \<lparr>x = 1, y = 1\<rparr>) normal = Some UP
   \<and> gposition (moveGhost homeConstants homeBoard pacmanBelow chase None 0 [pinky] pinky)
       = \<lparr>x = 1, y = 1\<rparr>"
  by code_simp

text \<open>
  C3, as amended. In a tick, \<open>handleCollisions\<close> runs after the two motion callbacks, on
  the player, ghosts and board of the last render. Contact comes first: going through
  the ghosts in order, each frightened ghost on the player's cell scores 200, and the
  first normal ghost on it is fatal. A fatal contact costs exactly one life, pauses the
  game and ends the resolution: the board and the pellets-eaten counter stay as they
  were and the score holds nothing beyond those 200s. Only without a fatal contact is
  the cell under the player looked at: a pellet scores 10, a power pellet 50, the
  counter goes up by one and the cell becomes empty. The tick itself never sets
  \<open>LEVEL_WON\<close>: that is the effect \<open>pelletsEffect\<close>, run after the render.
\<close>

theorem gameTick_collisions:
  "(list_ex (fatalGhost (position (pacman r))) (ghosts r) \<longrightarrow>
      lives (gameTick c rnd r) = lives r - 1
      \<and> gameState (gameTick c rnd r) = PAUSED
      \<and> score (gameTick c rnd r)
          = score r + 200 * int (length (scoredGhosts (position (pacman r)) (ghosts r)))
      \<and> board (gameTick c rnd r) = board r
      \<and> eatenPellets (gameTick c rnd r) = eatenPellets r)
   \<and> (\<not> list_ex (fatalGhost (position (pacman r))) (ghosts r) \<longrightarrow>
      lives (gameTick c rnd r) = lives r
      \<and> gameState (gameTick c rnd r) = gameState r
      \<and> score (gameTick c rnd r)
          = score r + 200 * int (length (scoredGhosts (position (pacman r)) (ghosts r)))
            + (if cellAt (board r) (position (pacman r)) = Some PELLET then 10
               else if cellAt (board r) (position (pacman r)) = Some POWER_PELLET then 50 else 0)
      \<and> eatenPellets (gameTick c rnd r)
          = eatenPellets r
            + (if cellAt (board r) (position (pacman r)) = Some PELLET
                  \<or> cellAt (board r) (position (pacman r)) = Some POWER_PELLET then 1 else 0)
      \<and> board (gameTick c rnd r)
          = (if cellAt (board r) (position (pacman r)) = Some PELLET
                \<or> cellAt (board r) (position (pacman r)) = Some POWER_PELLET
             then setCell (board r) (position (pacman r)) EMPTY else board r))"
proof -
  have frame: "lives (gameTick c rnd r) = lives (handleCollisions c r (moveGhosts c rnd r (movePacmanTick c r r)))"
    "gameState (gameTick c rnd r) = gameState (handleCollisions c r (moveGhosts c rnd r (movePacmanTick c r r)))"
    "score (gameTick c rnd r) = score (handleCollisions c r (moveGhosts c rnd r (movePacmanTick c r r)))"
    "board (gameTick c rnd r) = board (handleCollisions c r (moveGhosts c rnd r (movePacmanTick c r r)))"
    "eatenPellets (gameTick c rnd r) = eatenPellets (handleCollisions c r (moveGhosts c rnd r (movePacmanTick c r r)))"
    by (auto simp: gameTick_def advanceTimers_def Let_def split: Ticks.splits)
  show ?thesis
    by (simp add: frame handleCollisions_eq moveGhosts_def movePacmanTick_def Let_def)
qed


theorem gameTick_collisions_witness:
  "list_ex (fatalGhost (position (pacman fatalOnPellet))) (ghosts fatalOnPellet)
   \<and> lives (gameTick corridor (\<lambda>i. 0) fatalOnPellet) = 2
   \<and> gameState (gameTick corridor (\<lambda>i. 0) fatalOnPellet) = PAUSED
   \<and> \<not> list_ex (fatalGhost (position (pacman exampleGame))) (ghosts exampleGame)
   \<and> score (gameTick corridor (\<lambda>i. 0) exampleGame) = 10
   \<and> eatenPellets (gameTick corridor (\<lambda>i. 0) exampleGame) = 1"
proof -
  have fatalCase: "list_ex (fatalGhost (position (pacman fatalOnPellet))) (ghosts fatalOnPellet)"
    and lives3: "lives fatalOnPellet = 3"
    and openCase: "\<not> list_ex (fatalGhost (position (pacman exampleGame))) (ghosts exampleGame)"
    and start: "score exampleGame = 0" "eatenPellets exampleGame = 0"
      "scoredGhosts (position (pacman exampleGame)) (ghosts exampleGame) = []"
      "cellAt (board exampleGame) (position (pacman exampleGame)) = Some PELLET"
    by code_simp+
  from gameTick_collisions[of fatalOnPellet corridor "\<lambda>i. 0"]
    gameTick_collisions[of exampleGame corridor "\<lambda>i. 0"]
    fatalCase lives3 openCase start
  show ?thesis by simp
qed

text \<open>
  A state that refutes C3 as stated: the player is held on a pellet, a normal ghost is
  on that cell before the motion and another one after it. The tick takes a life and
  leaves the pellet, the score and the counter alone.
\<close>

theorem gameTick_collisions_counterexample:
  "cellAt (board fatalOnPellet) (position (pacman fatalOnPellet)) = Some PELLET
   \<and> position (pacman (gameTick corridor (\<lambda>i. 0) fatalOnPellet)) = position (pacman fatalOnPellet)
   \<and> list_ex (fatalGhost (position (pacman fatalOnPellet))) (ghosts fatalOnPellet)
   \<and> list_ex (fatalGhost (position (pacman fatalOnPellet)))
        (ghosts (gameTick corridor (\<lambda>i. 0) fatalOnPellet))
   \<and> lives (gameTick corridor (\<lambda>i. 0) fatalOnPellet) = lives fatalOnPellet - 1
   \<and> cellAt (board (gameTick corridor (\<lambda>i. 0) fatalOnPellet)) (position (pacman fatalOnPellet))
       = Some PELLET
   \<and> score (gameTick corridor (\<lambda>i. 0) fatalOnPellet) = score fatalOnPellet
   \<and> eatenPellets (gameTick corridor (\<lambda>i. 0) fatalOnPellet) = eatenPellets fatalOnPellet"
  by code_simp

text \<open>
  C4, as amended. When the cell under the player holds a power pellet at collision
  resolution and no normal ghost is on that cell, \<open>handleCollisions\<close> adds 50 to the
  score, on top of 200 for each frightened ghost on the cell, sets the frightened
  countdown to \<open>FRIGHTENED_DURATION\<close>, and turns every ghost that is not eaten, and was
  not eaten on that cell just now, to frightened with its direction reversed, where
  the reverse of \<open>NONE\<close> is \<open>UP\<close>.
\<close>

theorem handleCollisions_power_pellet:
  assumes "cellAt (board r) (position (pacman r)) = Some POWER_PELLET"
    and "\<not> list_ex (fatalGhost (position (pacman r))) (ghosts r)"
  shows "score (handleCollisions c r s)
           = score s + 200 * int (length (filter (\<lambda>g. onCell (position (pacman r)) g \<and> gstate g = frightened) (ghosts r))) + 50
     \<and> frightenedTicks (handleCollisions c r s) = FRIGHTENED_DURATION c
     \<and> ghosts (handleCollisions c r s)
         = map (\<lambda>g. if gstate g = eaten
                        \<or> gid g \<in> gid ` {h \<in> set (ghosts r). onCell (position (pacman r)) h \<and> gstate h = frightened}
                     then g\<lparr>gstate := eaten\<rparr>
                     else g\<lparr>gstate := frightened, gdirection := oppositeDirectionHC (gdirection g)\<rparr>)
             (ghosts s)"
proof -
  let ?pp = "position (pacman r)"
  from assms(2) have tw: "takeWhile (\<lambda>g. \<not> fatalGhost ?pp g) (ghosts r) = ghosts r"
    by (simp add: list_ex_iff takeWhile_eq_all_conv)
  have sc: "scoredGhosts ?pp (ghosts r) = filter (\<lambda>g. onCell ?pp g \<and> gstate g = frightened) (ghosts r)"
    by (simp only: scoredGhosts_def tw)
  have "frighten \<circ> eatAll (filter (\<lambda>g. onCell ?pp g \<and> gstate g = frightened) (ghosts r))
      = (\<lambda>g. if gstate g = eaten
                        \<or> gid g \<in> gid ` {h \<in> set (ghosts r). onCell ?pp h \<and> gstate h = frightened}
                     then g\<lparr>gstate := eaten\<rparr>
                     else g\<lparr>gstate := frightened, gdirection := oppositeDirectionHC (gdirection g)\<rparr>)"
    by (rule ext) (auto simp: frighten_def eatAll_def)
  then show ?thesis using assms
    by (simp add: handleCollisions_eq Let_def sc)
qed


theorem handleCollisions_power_pellet_witness:
  "cellAt (board powerPelletGame) (position (pacman powerPelletGame)) = Some POWER_PELLET
   \<and> \<not> list_ex (fatalGhost (position (pacman powerPelletGame))) (ghosts powerPelletGame)
   \<and> score (handleCollisions corridor powerPelletGame powerPelletGame) = 250
   \<and> frightenedTicks (handleCollisions corridor powerPelletGame powerPelletGame) = 5
   \<and> map gstate (ghosts (handleCollisions corridor powerPelletGame powerPelletGame))
       = [eaten, frightened]
   \<and> map gdirection (ghosts (handleCollisions corridor powerPelletGame powerPelletGame))
       = [RIGHT, LEFT]"
proof -
  have pre: "cellAt (board powerPelletGame) (position (pacman powerPelletGame)) = Some POWER_PELLET"
    "\<not> list_ex (fatalGhost (position (pacman powerPelletGame))) (ghosts powerPelletGame)"
    by code_simp+
  have vals: "score powerPelletGame = 0" "FRIGHTENED_DURATION corridor = 5"
    "length (filter (\<lambda>g. onCell (position (pacman powerPelletGame)) g \<and> gstate g = frightened)
       (ghosts powerPelletGame)) = 1"
    "map gstate (ghosts (handleCollisions corridor powerPelletGame powerPelletGame))
       = [eaten, frightened]"
    "map gdirection (ghosts (handleCollisions corridor powerPelletGame powerPelletGame))
       = [RIGHT, LEFT]"
    by code_simp+
  from handleCollisions_power_pellet[OF pre, of corridor powerPelletGame] pre vals
  show ?thesis by simp
qed

text \<open>
  A state that refutes C4 as stated: the player is on the power pellet together with a
  normal ghost. \<open>handleCollisions\<close>, and the whole tick, leave the score, the countdown,
  the ghosts' states and the power pellet as they were.
\<close>

theorem handleCollisions_power_pellet_counterexample:
  "cellAt (board fatalOnPowerPellet) (position (pacman fatalOnPowerPellet)) = Some POWER_PELLET
   \<and> score (handleCollisions corridor fatalOnPowerPellet fatalOnPowerPellet) = score fatalOnPowerPellet
   \<and> frightenedTicks (handleCollisions corridor fatalOnPowerPellet fatalOnPowerPellet) = 0
   \<and> map gstate (ghosts (handleCollisions corridor fatalOnPowerPellet fatalOnPowerPellet))
       = [normal, normal]
   \<and> position (pacman (gameTick corridor (\<lambda>i. 0) fatalOnPowerPellet))
       = position (pacman fatalOnPowerPellet)
   \<and> list_ex (fatalGhost (position (pacman fatalOnPowerPellet)))
        (ghosts (gameTick corridor (\<lambda>i. 0) fatalOnPowerPellet))
   \<and> score (gameTick corridor (\<lambda>i. 0) fatalOnPowerPellet) = score fatalOnPowerPellet
   \<and> frightenedTicks (gameTick corridor (\<lambda>i. 0) fatalOnPowerPellet) = 0
   \<and> map gstate (ghosts (gameTick corridor (\<lambda>i. 0) fatalOnPowerPellet)) = [normal, normal]
   \<and> cellAt (board (gameTick corridor (\<lambda>i. 0) fatalOnPowerPellet))
        (position (pacman fatalOnPowerPellet)) = Some POWER_PELLET"
  by code_simp

text \<open>
  C5, as amended. For every board of positive width and height, ghost state, start
  cell and goal cell other than the start, \<open>findNextMove\<close> returns a direction exactly
  when some walk leads from the start to the goal under the traversability test of its
  loops, and the direction it returns is the first step of a shortest such walk: the
  step is legal, and from the neighbour it leads to the goal is reached in one step
  fewer than any walk from the start takes. Among the first steps of shortest walks
  it is the earliest in the order Up, Down, Left, Right: no earlier direction leads
  to a neighbour from which the goal is as near.
\<close>

theorem findNextMove_shortest_path:
  assumes "start \<noteq> goal" and "0 < BOARD_WIDTH c" and "0 < BOARD_HEIGHT c"
  shows "(\<forall>d. findNextMove c b start (Some goal) st = Some d \<longrightarrow>
            d \<in> set directions \<and> openCell b st (getNextPosition c start d)
            \<and> (\<exists>n. walk c b st n (getNextPosition c start d) goal
                  \<and> (\<forall>m. walk c b st m start goal \<longrightarrow> Suc n \<le> m)
                  \<and> (\<forall>e \<in> set directions. rank e < rank d \<longrightarrow>
                        \<not> (openCell b st (getNextPosition c start e)
                           \<and> walk c b st n (getNextPosition c start e) goal))))
     \<and> (findNextMove c b start (Some goal) st = None \<longleftrightarrow> (\<forall>m. \<not> walk c b st m start goal))"
proof -
  have si: "startInv c b st start goal {start} []"
    using assms(1) unfolding startInv_def by simp
  have rc: "ringComplete c b st start [UP, DOWN, LEFT, RIGHT] []"
    unfolding ringComplete_def directions_def by simp
  have first: "case findNextMove_start c b start (Some goal) st [UP, DOWN, LEFT, RIGHT] {start} [] of
       Inl r \<Rightarrow> goodStep c b st start goal r
     | Inr (visited', queue') \<Rightarrow>
         startInv c b st start goal visited' queue' \<and> ringComplete c b st start [] queue'"
    using findNextMove_start_inv[OF assms(2,3,1) si _ _ _ rc]
    by (simp add: directions_def)
  have res: "case findNextMove c b start (Some goal) st of
      Some r \<Rightarrow> goodStep c b st start goal r
    | None \<Rightarrow> \<forall>m. \<not> walk c b st m start goal"
  proof (cases "findNextMove_start c b start (Some goal) st [UP, DOWN, LEFT, RIGHT] {start} []")
    case (Inl r)
    with first show ?thesis by (simp add: findNextMove_def)
  next
    case (Inr vq)
    obtain v q where vq: "vq = (v, q)" by (cases vq)
    with first Inr have "startInv c b st start goal v q" "ringComplete c b st start [] q" by simp_all
    from findNextMove_loop_inv[OF startInv_bfsInv[OF this]] Inr vq
    show ?thesis by (simp add: findNextMove_def)
  qed
  have some: "goodStep c b st start goal d" if "findNextMove c b start (Some goal) st = Some d" for d
    using res that by simp
  have none: "\<forall>m. \<not> walk c b st m start goal" if "findNextMove c b start (Some goal) st = None"
    using res that by simp
  have conv: "findNextMove c b start (Some goal) st = None" if nw: "\<forall>m. \<not> walk c b st m start goal"
  proof (rule ccontr)
    assume "findNextMove c b start (Some goal) st \<noteq> None"
    then obtain d where d: "findNextMove c b start (Some goal) st = Some d" by auto
    from some[OF d] obtain n where "d \<in> set directions" "openCell b st (getNextPosition c start d)"
      "walk c b st n (getNextPosition c start d) goal" unfolding goodStep_def by blast
    then have "walk c b st (Suc n) start goal" by auto
    with nw show False by blast
  qed
  from some none conv show ?thesis unfolding goodStep_def by blast
qed

theorem findNextMove_shortest_path_witness:
  "\<lparr>x = 0, y = 1\<rparr> \<noteq> \<lparr>x = 2, y = 1\<rparr>
   \<and> findNextMove corridor corridorBoard \<lparr>x = 0, y = 1\<rparr> (Some \<lparr>x = 2, y = 1\<rparr>) normal = Some RIGHT
   \<and> openCell corridorBoard normal (getNextPosition corridor \<lparr>x = 0, y = 1\<rparr> RIGHT)
   \<and> (\<exists>n. walk corridor corridorBoard normal n (getNextPosition corridor \<lparr>x = 0, y = 1\<rparr> RIGHT)
             \<lparr>x = 2, y = 1\<rparr>
          \<and> (\<forall>m. walk corridor corridorBoard normal m \<lparr>x = 0, y = 1\<rparr> \<lparr>x = 2, y = 1\<rparr>
                \<longrightarrow> Suc n \<le> m)
          \<and> (\<forall>e \<in> set directions. rank e < rank RIGHT \<longrightarrow>
                \<not> (openCell corridorBoard normal (getNextPosition corridor \<lparr>x = 0, y = 1\<rparr> e)
                   \<and> walk corridor corridorBoard normal n
                        (getNextPosition corridor \<lparr>x = 0, y = 1\<rparr> e) \<lparr>x = 2, y = 1\<rparr>)))
   \<and> findNextMove corridor corridorBoard \<lparr>x = 0, y = 1\<rparr> (Some \<lparr>x = 3, y = 1\<rparr>) normal = None
   \<and> \<not> walk corridor corridorBoard normal 3 \<lparr>x = 0, y = 1\<rparr> \<lparr>x = 3, y = 1\<rparr>"
proof -
  have ne: "\<lparr>x = 0, y = 1\<rparr> \<noteq> \<lparr>x = 2, y = (1::int)\<rparr>" "\<lparr>x = 0, y = 1\<rparr> \<noteq> \<lparr>x = 3, y = (1::int)\<rparr>"
    by simp_all
  have dims: "0 < BOARD_WIDTH corridor" "0 < BOARD_HEIGHT corridor"
    by (simp_all add: corridor_def)
  have found: "findNextMove corridor corridorBoard \<lparr>x = 0, y = 1\<rparr> (Some \<lparr>x = 2, y = 1\<rparr>) normal
      = Some RIGHT"
    and none: "findNextMove corridor corridorBoard \<lparr>x = 0, y = 1\<rparr> (Some \<lparr>x = 3, y = 1\<rparr>) normal
      = None"
    by code_simp+
  from findNextMove_shortest_path[OF ne(1) dims, of corridorBoard normal] found
  have step: "openCell corridorBoard normal (getNextPosition corridor \<lparr>x = 0, y = 1\<rparr> RIGHT)
     \<and> (\<exists>n. walk corridor corridorBoard normal n (getNextPosition corridor \<lparr>x = 0, y = 1\<rparr> RIGHT)
             \<lparr>x = 2, y = 1\<rparr>
          \<and> (\<forall>m. walk corridor corridorBoard normal m \<lparr>x = 0, y = 1\<rparr> \<lparr>x = 2, y = 1\<rparr>
                \<longrightarrow> Suc n \<le> m)
          \<and> (\<forall>e \<in> set directions. rank e < rank RIGHT \<longrightarrow>
                \<not> (openCell corridorBoard normal (getNextPosition corridor \<lparr>x = 0, y = 1\<rparr> e)
                   \<and> walk corridor corridorBoard normal n
                        (getNextPosition corridor \<lparr>x = 0, y = 1\<rparr> e) \<lparr>x = 2, y = 1\<rparr>)))"
    by blast
  from findNextMove_shortest_path[OF ne(2) dims, of corridorBoard normal] none
  have "\<not> walk corridor corridorBoard normal 3 \<lparr>x = 0, y = 1\<rparr> \<lparr>x = 3, y = 1\<rparr>"
    by blast
  with ne(1) found step none show ?thesis by blast
qed

text \<open>
  An input that refutes C5 as stated: with the goal on the start cell there is a walk of
  no step, and one of two steps that comes back, yet \<open>findNextMove\<close> returns nothing.
\<close>

theorem findNextMove_shortest_path_counterexample:
  "walk corridor corridorBoard normal 0 \<lparr>x = 1, y = 1\<rparr> \<lparr>x = 1, y = 1\<rparr>
   \<and> walk corridor corridorBoard normal 2 \<lparr>x = 1, y = 1\<rparr> \<lparr>x = 1, y = 1\<rparr>
   \<and> findNextMove corridor corridorBoard \<lparr>x = 1, y = 1\<rparr> (Some \<lparr>x = 1, y = 1\<rparr>) normal = None"
  by code_simp

text \<open>
  C6. A tick that starts with the frightened countdown above zero leaves the
  scatter/chase counter, the schedule index and the mode as they were. A tick that
  starts with the countdown at one brings it to zero and turns every ghost that is
  frightened at that point to normal, so that no ghost is frightened after it.
\<close>

theorem gameTick_frightened_pauses_schedule:
  "(frightenedTicks r > 0 \<longrightarrow>
      modeTicks (gameTick c rnd r) = modeTicks r
      \<and> scheduleIndex (gameTick c rnd r) = scheduleIndex r
      \<and> ghostMode (gameTick c rnd r) = ghostMode r)
   \<and> (frightenedTicks r = 1 \<longrightarrow>
      frightenedTicks (gameTick c rnd r) = 0
      \<and> ghosts (gameTick c rnd r)
          = map (\<lambda>g. if gstate g = frightened then g\<lparr>gstate := normal\<rparr> else g)
              (ghosts (handleCollisions c r (moveGhosts c rnd r (movePacmanTick c r r))))
      \<and> (\<forall>g \<in> set (ghosts (gameTick c rnd r)). gstate g \<noteq> frightened))"
  by (auto simp: gameTick_def advanceTimers_def handleCollisions_eq moveGhosts_def
        movePacmanTick_def Let_def)


theorem gameTick_frightened_pauses_schedule_witness:
  "frightenedTicks frightenedGame = 1
   \<and> modeTicks (gameTick corridor (\<lambda>i. 0) frightenedGame) = Finite 70
   \<and> scheduleIndex (gameTick corridor (\<lambda>i. 0) frightenedGame) = 0
   \<and> ghostMode (gameTick corridor (\<lambda>i. 0) frightenedGame) = scatter
   \<and> frightenedTicks (gameTick corridor (\<lambda>i. 0) frightenedGame) = 0
   \<and> map gstate (ghosts frightenedGame) = [frightened]
   \<and> map gstate (ghosts (gameTick corridor (\<lambda>i. 0) frightenedGame)) = [normal]"
proof -
  have one: "frightenedTicks frightenedGame = 1"
    and before: "modeTicks frightenedGame = Finite 70" "scheduleIndex frightenedGame = 0"
      "ghostMode frightenedGame = scatter"
    and states: "map gstate (ghosts frightenedGame) = [frightened]"
      "map gstate (ghosts (gameTick corridor (\<lambda>i. 0) frightenedGame)) = [normal]"
    by code_simp+
  have pos: "frightenedTicks frightenedGame > 0" by (simp only: one zero_less_one)
  note inst = gameTick_frightened_pauses_schedule[of frightenedGame corridor "\<lambda>i. 0"]
  from inst pos
  have kept: "modeTicks (gameTick corridor (\<lambda>i. 0) frightenedGame) = modeTicks frightenedGame"
    "scheduleIndex (gameTick corridor (\<lambda>i. 0) frightenedGame) = scheduleIndex frightenedGame"
    "ghostMode (gameTick corridor (\<lambda>i. 0) frightenedGame) = ghostMode frightenedGame"
    by blast+
  from inst one
  have zero: "frightenedTicks (gameTick corridor (\<lambda>i. 0) frightenedGame) = 0" by blast
  show ?thesis by (simp only: one kept before zero states simp_thms)
qed

text \<open>
  C7, as amended. An answer of the advisory service is accepted as an override only if
  it parsed and holds a truthy entry for each of the ghost ids 1 to 4; the coordinates
  of the entries are not looked at. An answer that failed or did not parse, or that
  lacks the entry of one of the four ids, is rejected: the stored targets stay as they
  were, the ghosts move in the next tick as they would have without the answer, and
  when no targets are stored a normal ghost heads for the target of the per-ghost
  policy.
\<close>

theorem hiveMindResponse_acceptance:
  "(hiveMindStatus (hiveMindResponse response s) = active \<longrightarrow>
      (\<exists>t. response = Some t \<and> geminiTargets (hiveMindResponse response s) = Some t
           \<and> (\<forall>i \<in> {1, 2, 3, 4}. \<exists>e. jsProp t (Idx i) = Some e \<and> truthy e)))
   \<and> (response = None \<or> (\<exists>t i. response = Some t \<and> i \<in> {1, 2, 3, 4} \<and> jsProp t (Idx i) = None) \<longrightarrow>
      hiveMindStatus (hiveMindResponse response s) = error
      \<and> geminiTargets (hiveMindResponse response s) = geminiTargets s
      \<and> ghosts (gameTick c rnd (hiveMindResponse response s)) = ghosts (gameTick c rnd s)
      \<and> (geminiTargets s = None \<and> gstate ghost = normal \<longrightarrow>
           moveGhost c b pac mode (geminiTargets (hiveMindResponse response s)) n gs ghost
           = (let target = (if mode = chase then getChaseTarget ghost pac gs else scatterTarget ghost);
                  d = (case findNextMove c b (gposition ghost) (Some target) normal of
                         Some d \<Rightarrow> d | None \<Rightarrow> gdirection ghost)
              in ghost\<lparr>gposition := getNextPosition c (gposition ghost) d, gdirection := d\<rparr>)))"
proof -
  have rej: "response = None \<or> (\<exists>t i. response = Some t \<and> i \<in> {1, 2, 3, 4} \<and> jsProp t (Idx i) = None)
     \<Longrightarrow> hiveMindResponse response s = s\<lparr>hiveMindStatus := error\<rparr>"
    by (auto simp: hiveMindResponse_def validTargets_def truthyProp_def split: option.splits)
  have tick: "ghosts (gameTick c rnd (s\<lparr>hiveMindStatus := error\<rparr>)) = ghosts (gameTick c rnd s)"
    by (simp add: gameTick_def advanceTimers_def handleCollisions_eq moveGhosts_def
          movePacmanTick_def Let_def split: Ticks.splits)
  have acc: "hiveMindStatus (hiveMindResponse response s) = active \<Longrightarrow>
      (\<exists>t. response = Some t \<and> geminiTargets (hiveMindResponse response s) = Some t
           \<and> (\<forall>i \<in> {1, 2, 3, 4}. \<exists>e. jsProp t (Idx i) = Some e \<and> truthy e))"
    by (auto simp: hiveMindResponse_def validTargets_def truthyProp_def split: option.splits if_splits)
  have base: "gstate ghost = normal \<Longrightarrow>
      moveGhost c b pac mode None n gs ghost
           = (let target = (if mode = chase then getChaseTarget ghost pac gs else scatterTarget ghost);
                  d = (case findNextMove c b (gposition ghost) (Some target) normal of
                         Some d \<Rightarrow> d | None \<Rightarrow> gdirection ghost)
              in ghost\<lparr>gposition := getNextPosition c (gposition ghost) d, gdirection := d\<rparr>)"
    by (simp add: moveGhost_def Let_def)
  show ?thesis using rej tick acc base by (auto simp: Let_def)
qed

theorem hiveMindResponse_acceptance_witness:
  "hiveMindStatus (hiveMindResponse (Some wholeTargets) exampleGame) = active
   \<and> geminiTargets (hiveMindResponse (Some wholeTargets) exampleGame) = Some wholeTargets
   \<and> jsProp partialTargets (Idx 4) = None
   \<and> hiveMindStatus (hiveMindResponse (Some partialTargets) exampleGame) = error
   \<and> geminiTargets (hiveMindResponse (Some partialTargets) exampleGame) = geminiTargets exampleGame
   \<and> ghosts (gameTick corridor (\<lambda>i. 0) (hiveMindResponse (Some partialTargets) exampleGame))
       = ghosts (gameTick corridor (\<lambda>i. 0) exampleGame)
   \<and> geminiTargets exampleGame = None
   \<and> gposition (moveGhost corridor corridorBoard examplePacman chase
        (geminiTargets (hiveMindResponse (Some partialTargets) exampleGame)) 0
        [exampleGhost] exampleGhost) = \<lparr>x = 0, y = 1\<rparr>"
proof -
  have accepted: "hiveMindStatus (hiveMindResponse (Some wholeTargets) exampleGame) = active"
    and missing: "jsProp partialTargets (Idx 4) = None"
    and base: "geminiTargets exampleGame = None \<and> gstate exampleGhost = normal"
    and val: "gposition
      (let target = (if chase = chase then getChaseTarget exampleGhost examplePacman [exampleGhost]
                     else scatterTarget exampleGhost);
           d = (case findNextMove corridor corridorBoard (gposition exampleGhost) (Some target)
                       normal of
                  Some d \<Rightarrow> d | None \<Rightarrow> gdirection exampleGhost)
       in exampleGhost\<lparr>gposition := getNextPosition corridor (gposition exampleGhost) d,
                        gdirection := d\<rparr>) = \<lparr>x = 0, y = 1\<rparr>"
    by code_simp+
  from hiveMindResponse_acceptance[of "Some wholeTargets" exampleGame corridor "\<lambda>i. 0"
      exampleGhost corridorBoard examplePacman chase 0 "[exampleGhost]"] accepted
  obtain t where "Some wholeTargets = Some t"
    "geminiTargets (hiveMindResponse (Some wholeTargets) exampleGame) = Some t"
    by blast
  then have stored:
    "geminiTargets (hiveMindResponse (Some wholeTargets) exampleGame) = Some wholeTargets"
    by simp
  have rejected: "Some partialTargets = None
     \<or> (\<exists>t i. Some partialTargets = Some t \<and> i \<in> {1, 2, 3, 4} \<and> jsProp t (Idx i) = None)"
    using missing by blast
  note inst = hiveMindResponse_acceptance[of "Some partialTargets" exampleGame corridor
      "\<lambda>i. 0" exampleGhost corridorBoard examplePacman chase 0 "[exampleGhost]"]
  from inst rejected
  have kept: "hiveMindStatus (hiveMindResponse (Some partialTargets) exampleGame) = error"
    "geminiTargets (hiveMindResponse (Some partialTargets) exampleGame) = geminiTargets exampleGame"
    "ghosts (gameTick corridor (\<lambda>i. 0) (hiveMindResponse (Some partialTargets) exampleGame))
       = ghosts (gameTick corridor (\<lambda>i. 0) exampleGame)"
    by blast+
  from inst rejected base
  have "moveGhost corridor corridorBoard examplePacman chase
        (geminiTargets (hiveMindResponse (Some partialTargets) exampleGame)) 0
        [exampleGhost] exampleGhost
      = (let target = (if chase = chase then getChaseTarget exampleGhost examplePacman [exampleGhost]
                     else scatterTarget exampleGhost);
           d = (case findNextMove corridor corridorBoard (gposition exampleGhost) (Some target)
                       normal of
                  Some d \<Rightarrow> d | None \<Rightarrow> gdirection exampleGhost)
       in exampleGhost\<lparr>gposition := getNextPosition corridor (gposition exampleGhost) d,
                        gdirection := d\<rparr>)"
    by blast
  then have moved: "gposition (moveGhost corridor corridorBoard examplePacman chase
        (geminiTargets (hiveMindResponse (Some partialTargets) exampleGame)) 0
        [exampleGhost] exampleGhost) = \<lparr>x = 0, y = 1\<rparr>"
    using val by (simp only:)
  show ?thesis using accepted stored missing kept base moved by blast
qed

text \<open>
  An answer that refutes C7 as stated: each of the four entries has the coordinate
  \<open>x = 1/2\<close>. It is accepted, and in chase mode the ghost that would have gone Left to
  the player keeps going Right.
\<close>

theorem hiveMindResponse_acceptance_counterexample:
  "\<not> integerTargets halfTargets
   \<and> hiveMindStatus (hiveMindResponse (Some halfTargets) exampleGame) = active
   \<and> geminiTargets (hiveMindResponse (Some halfTargets) exampleGame) = Some halfTargets
   \<and> gposition (moveGhost corridor corridorBoard examplePacman chase
        (geminiTargets (hiveMindResponse (Some halfTargets) exampleGame)) 0
        [exampleGhost] exampleGhost) = \<lparr>x = 2, y = 1\<rparr>
   \<and> gposition (moveGhost corridor corridorBoard examplePacman chase None 0
        [exampleGhost] exampleGhost) = \<lparr>x = 0, y = 1\<rparr>"
  by code_simp

text \<open>
  C8. Over a tick the pellets-eaten counter does not decrease, and the counter plus the
  number of Pellet and PowerPellet cells on the board stays the same: if the counter
  is the level's total minus the cells left before the tick, it is so after it. The
  board either stays as it is, or the cell under the player, which held a Pellet or
  a PowerPellet, becomes Empty and every other cell stays as it is.
\<close>

theorem gameTick_pellets:
  "eatenPellets r \<le> eatenPellets (gameTick c rnd r)
   \<and> eatenPellets (gameTick c rnd r) + int (remainingPellets (board (gameTick c rnd r)))
       = eatenPellets r + int (remainingPellets (board r))
   \<and> (eatenPellets r = TOTAL_PELLETS c - int (remainingPellets (board r)) \<longrightarrow>
        eatenPellets (gameTick c rnd r)
          = TOTAL_PELLETS c - int (remainingPellets (board (gameTick c rnd r))))
   \<and> (board (gameTick c rnd r) = board r
       \<or> (cellAt (board r) (position (pacman r)) = Some PELLET
            \<or> cellAt (board r) (position (pacman r)) = Some POWER_PELLET)
         \<and> board (gameTick c rnd r) = setCell (board r) (position (pacman r)) EMPTY
         \<and> cellAt (board (gameTick c rnd r)) (position (pacman r)) = Some EMPTY
         \<and> (\<forall>q. q \<noteq> position (pacman r) \<longrightarrow>
               cellAt (board (gameTick c rnd r)) q = cellAt (board r) q))"
proof -
  let ?pp = "position (pacman r)"
  let ?s = "gameTick c rnd r"
  have frame: "board ?s = board (handleCollisions c r (moveGhosts c rnd r (movePacmanTick c r r)))"
    "eatenPellets ?s = eatenPellets (handleCollisions c r (moveGhosts c rnd r (movePacmanTick c r r)))"
    by (auto simp: gameTick_def advanceTimers_def Let_def split: Ticks.splits)
  consider (eat) "\<not> list_ex (fatalGhost ?pp) (ghosts r)"
      "cellAt (board r) ?pp = Some PELLET \<or> cellAt (board r) ?pp = Some POWER_PELLET"
    | (keep) "list_ex (fatalGhost ?pp) (ghosts r)
        \<or> (cellAt (board r) ?pp \<noteq> Some PELLET \<and> cellAt (board r) ?pp \<noteq> Some POWER_PELLET)"
    by blast
  then show ?thesis
  proof cases
    case eat
    then obtain v where v: "cellAt (board r) ?pp = Some v" "isPelletCell v"
      by (auto simp: isPelletCell_def)
    have b: "board ?s = setCell (board r) ?pp EMPTY" and e: "eatenPellets ?s = eatenPellets r + 1"
      using eat by (auto simp: frame handleCollisions_eq moveGhosts_def movePacmanTick_def Let_def)
    from remainingPellets_setCell[OF v]
    have "int (remainingPellets (setCell (board r) ?pp EMPTY)) + 1 = int (remainingPellets (board r))"
      by linarith
    then show ?thesis
      using b e eat(2) cellAt_setCell_same[OF v(1)] cellAt_setCell_other[OF v(1)] by auto
  next
    case keep
    then have "board ?s = board r" and "eatenPellets ?s = eatenPellets r"
      by (auto simp: frame handleCollisions_eq moveGhosts_def movePacmanTick_def Let_def)
    then show ?thesis by simp
  qed
qed


theorem gameTick_pellets_witness:
  "eatenPellets exampleGame = TOTAL_PELLETS corridor - int (remainingPellets (board exampleGame))
   \<and> eatenPellets (gameTick corridor (\<lambda>i. 0) exampleGame) = 1
   \<and> remainingPellets (board (gameTick corridor (\<lambda>i. 0) exampleGame)) = 1
   \<and> cellAt (board (gameTick corridor (\<lambda>i. 0) exampleGame)) \<lparr>x = 0, y = 1\<rparr> = Some EMPTY
   \<and> cellAt (board (gameTick corridor (\<lambda>i. 0) exampleGame)) \<lparr>x = 2, y = 1\<rparr> = Some POWER_PELLET"
proof -
  have vals: "eatenPellets exampleGame = 0" "TOTAL_PELLETS corridor = 2"
    "remainingPellets (board exampleGame) = 2"
    "eatenPellets (gameTick corridor (\<lambda>i. 0) exampleGame) = 1"
    "position (pacman exampleGame) = \<lparr>x = 0, y = 1\<rparr>"
    "cellAt (board exampleGame) \<lparr>x = 2, y = 1\<rparr> = Some POWER_PELLET"
    "board (gameTick corridor (\<lambda>i. 0) exampleGame) \<noteq> board exampleGame"
    by code_simp+
  from gameTick_pellets[of exampleGame corridor "\<lambda>i. 0"] vals
  show ?thesis by auto
qed

end
